theory Spec2Isabelle
  imports Complex_Main "HOL-Library.Word" "HOL-Library.Multiset"
    "HOL-Library.Char_ord" "HOL-Library.List_Lexorder"
begin

section \<open>DR wire format constants (DRTupleStream.h)\<close>

text \<open>
  The record sizes are compile-time constants of class \<open>DRTupleStream\<close>; each is written
  in the header as the sum of its field widths, and is embedded here with the same sum.
\<close>

definition BEGIN_RECORD_SIZE :: nat where
  \<comment> \<open>Version(1), type(1), drId(8), uniqueId(8), hashFlag(1), txnLength(4), parHash(4)\<close>
  "BEGIN_RECORD_SIZE = 1 + 1 + 8 + 8 + 1 + 4 + 4"

definition BEGIN_RECORD_HEADER_SIZE :: nat where
  \<comment> \<open>Version(1), type(1), drId(8), uniqueId(8)\<close>
  "BEGIN_RECORD_HEADER_SIZE = 1 + 1 + 8 + 8"

definition END_RECORD_SIZE :: nat where
  \<comment> \<open>Type(1), drId(8), checksum(4)\<close>
  "END_RECORD_SIZE = 1 + 8 + 4"

definition TXN_RECORD_HEADER_SIZE :: nat where
  \<comment> \<open>Type(1), table signature(8)\<close>
  "TXN_RECORD_HEADER_SIZE = 1 + 8"

definition HASH_DELIMITER_SIZE :: nat where
  \<comment> \<open>Type(1), parHash(4)\<close>
  "HASH_DELIMITER_SIZE = 1 + 4"

definition PROTOCOL_VERSION :: "8 word" where
  "PROTOCOL_VERSION = 4"

section \<open>PersistentTable::truncateTable: delete row by row, or swap in an empty table\<close>

text \<open>
  \<open>truncateTable\<close> first decides how to empty the table. Only that decision is embedded:
  what the function reads (whether the table is empty, the load factors of the blocks of
  \<open>m_data\<close> in address order, the number of views) and which of its three exits it takes.
  \<open>loadFactor()\<close> is a C++ double; it is modelled by the real number it denotes, and the two
  cut-offs by the decimal fractions written in the source.
\<close>

datatype truncate_path =
    TruncateNothing        \<comment> \<open>\<open>isPersistentTableEmpty()\<close>: return at once\<close>
  | TupleByTupleDelete     \<comment> \<open>\<open>return deleteAllTuples(true)\<close>\<close>
  | TableSwap              \<comment> \<open>the empty-table swap that follows\<close>

definition tableLFCutoffForTrunc :: real where
  "tableLFCutoffForTrunc = 0.105666"

definition tableWithViewsLFCutoffForTrunc :: real where
  "tableWithViewsLFCutoffForTrunc = 0.015416"

definition truncateTable :: "bool \<Rightarrow> real list \<Rightarrow> nat \<Rightarrow> truncate_path" where
  "truncateTable isPersistentTableEmpty m_data_loadFactors m_views_size =
     (if isPersistentTableEmpty then TruncateNothing
      else case m_data_loadFactors of
        [blockLoadFactor] \<Rightarrow>
          if (blockLoadFactor \<le> tableLFCutoffForTrunc) \<or>
             (m_views_size > 0 \<and> blockLoadFactor \<le> tableWithViewsLFCutoffForTrunc)
          then TupleByTupleDelete
          else TableSwap
      | _ \<Rightarrow> TableSwap)"

section \<open>Tuples, schemas and indexes\<close>

text \<open>
  A stored column is either inlined in the tuple's bytes or a pointer to an object that
  lives outside the tuple (long strings and binaries). A comparison of values sees the
  object behind the pointer; a byte comparison of two tuples sees the pointer. A pointer
  determines its object, so the bytes of a non-inlined column are modelled by the pointer
  together with the object. A null pointer is written \<open>Inlined NullValue\<close>: its bytes and
  its value are both the null.
\<close>

type_synonym addr = nat

datatype nvalue = NullValue | IntValue int | StringValue string

datatype column_storage =
    Inlined nvalue
  | NonInlined nat string    \<comment> \<open>the pointer stored in the tuple, and the object it points to\<close>

fun getValue :: "column_storage \<Rightarrow> nvalue" where
  "getValue (Inlined v) = v"
| "getValue (NonInlined p s) = StringValue s"

fun rawBytes :: "column_storage \<Rightarrow> nvalue + nat \<times> string" where
  "rawBytes (Inlined v) = Inl v"
| "rawBytes (NonInlined p s) = Inr (p, s)"

record table_tuple =
  isActive :: bool
  isDirty :: bool
  isPendingDelete :: bool
  isPendingDeleteOnUndoRelease :: bool
  columns :: "column_storage list"          \<comment> \<open>the visible columns, in schema order\<close>
  hiddenColumns :: "column_storage list"    \<comment> \<open>appended after the visible columns\<close>

definition getNValue :: "table_tuple \<Rightarrow> nat \<Rightarrow> nvalue" where
  "getNValue t i = (if i < length (columns t) then getValue (columns t ! i) else NullValue)"

record tuple_schema =
  columnInlined :: "bool list"     \<comment> \<open>one entry per visible column: is the column inlined?\<close>
  hiddenColumnCount :: nat

definition columnCount :: "tuple_schema \<Rightarrow> nat" where
  "columnCount sch = length (columnInlined sch)"

definition getUninlinedObjectColumnCount :: "tuple_schema \<Rightarrow> nat" where
  "getUninlinedObjectColumnCount sch = length (filter Not (columnInlined sch))"

text \<open>
  Modelled from the spec: class \<open>TableIndex\<close> (indexes/tableindex.h) is not part of the
  sources at hand. The spec describes an index as a mapping from key tuple (the projection
  of the selected columns) to the address of the row tuple, with a declared uniqueness,
  exposing \<open>add\<close>, \<open>deleteEntry\<close>, \<open>exists\<close>, \<open>checkForIndexChange(old,new)\<close> (true iff
  the indexed columns differ) and \<open>uniqueMatchingTuple\<close>; compaction rewrites the address
  of an entry with \<open>replaceEntryNoKeyChange\<close>. The entries are kept as a list of
  (key, address) pairs.
\<close>

record table_index =
  getName :: string
  isUniqueIndex :: bool
  isPartialIndex :: bool
  keyTupleLength :: "32 word"           \<comment> \<open>\<open>getKeySchema()->tupleLength()\<close>\<close>
  keyUsesNonInlinedMemory :: bool
  getColumnIndices :: "nat list"
  entries :: "(nvalue list \<times> addr) list"

definition keyOf :: "table_index \<Rightarrow> table_tuple \<Rightarrow> nvalue list" where
  "keyOf ix t = map (getNValue t) (getColumnIndices ix)"

definition existsKey :: "table_index \<Rightarrow> table_tuple \<Rightarrow> bool" where
  "existsKey ix t = (keyOf ix t \<in> fst ` set (entries ix))"

definition uniqueMatchingTuple :: "table_index \<Rightarrow> table_tuple \<Rightarrow> addr option" where
  "uniqueMatchingTuple ix t = map_of (entries ix) (keyOf ix t)"

definition checkForIndexChange :: "table_index \<Rightarrow> table_tuple \<Rightarrow> table_tuple \<Rightarrow> bool" where
  "checkForIndexChange ix old new = (keyOf ix old \<noteq> keyOf ix new)"

text \<open>
  \<open>addEntry\<close> returns the address of the conflicting tuple when a unique index already
  holds the key, and the index with the new entry otherwise.
\<close>

definition addEntry :: "table_index \<Rightarrow> table_tuple \<Rightarrow> addr \<Rightarrow> addr + table_index" where
  "addEntry ix t a =
     (case (if isUniqueIndex ix then uniqueMatchingTuple ix t else None) of
        Some conflict \<Rightarrow> Inl conflict
      | None \<Rightarrow> Inr (ix\<lparr>entries := entries ix @ [(keyOf ix t, a)]\<rparr>))"

definition deleteEntry :: "table_index \<Rightarrow> table_tuple \<Rightarrow> addr \<Rightarrow> table_index option" where
  "deleteEntry ix t a =
     (if (keyOf ix t, a) \<in> set (entries ix)
      then Some (ix\<lparr>entries := remove1 (keyOf ix t, a) (entries ix)\<rparr>)
      else None)"


section \<open>PersistentTable::getUniqueIndexForDR and computeSmallestUniqueIndex\<close>

text \<open>
  The three cached members of the table. \<open>m_smallestUniqueIndex\<close> points into
  \<open>m_indexes\<close>; the model keeps the position together with the index found there.
  \<open>vdbcrc::crc32cInit\<close>, \<open>crc32c\<close> and \<open>crc32cFinish\<close> (crc/crc32c.h) are not part of the
  sources at hand and are taken as parameters; \<open>crc32c\<close> receives the column-indices array.
\<close>

record dr_index_cache =
  m_noAvailableUniqueIndex :: bool
  m_smallestUniqueIndex :: "(nat \<times> table_index) option"
  m_smallestUniqueIndexCrc :: "32 word"

record crc32c_functions =
  crc32cInit :: "32 word"
  crc32c :: "32 word \<Rightarrow> nat list \<Rightarrow> 32 word"
  crc32cFinish :: "32 word \<Rightarrow> 32 word"

text \<open>The locals of the loop in \<open>computeSmallestUniqueIndex\<close>.\<close>

record smallest_scan =
  smallestIndexTupleLength :: "32 word"
  smallestUniqueIndex :: "(nat \<times> table_index) option"
  smallestUniqueIndexName :: string

definition UINT32_MAX :: "32 word" where
  "UINT32_MAX = - 1"

definition scanStart :: smallest_scan where
  "scanStart = \<lparr>smallestIndexTupleLength = UINT32_MAX, smallestUniqueIndex = None,
                 smallestUniqueIndexName = []\<rparr>"

definition takesOver :: "smallest_scan \<Rightarrow> table_index \<Rightarrow> bool" where
  "takesOver st index =
     (let indexTupleLength = keyTupleLength index in
      (case smallestUniqueIndex st of
         None \<Rightarrow> True
       | Some (j, current) \<Rightarrow>
           (keyUsesNonInlinedMemory current \<and> \<not> keyUsesNonInlinedMemory index) \<or>
           indexTupleLength < smallestIndexTupleLength st \<or>
           (indexTupleLength = smallestIndexTupleLength st \<and>
            getName index < smallestUniqueIndexName st)))"

fun scanIndexes :: "nat \<Rightarrow> table_index list \<Rightarrow> smallest_scan \<Rightarrow> smallest_scan" where
  "scanIndexes i [] st = st"
| "scanIndexes i (index # rest) st =
     scanIndexes (Suc i) rest
       (if isUniqueIndex index \<and> \<not> isPartialIndex index \<and> takesOver st index
        then \<lparr>smallestIndexTupleLength = keyTupleLength index,
              smallestUniqueIndex = Some (i, index),
              smallestUniqueIndexName = getName index\<rparr>
        else st)"

definition computeSmallestUniqueIndex ::
    "crc32c_functions \<Rightarrow> table_index list \<Rightarrow> dr_index_cache" where
  "computeSmallestUniqueIndex crc m_indexes =
     (case smallestUniqueIndex (scanIndexes 0 m_indexes scanStart) of
        None \<Rightarrow>
          \<lparr>m_noAvailableUniqueIndex = True, m_smallestUniqueIndex = None,
           m_smallestUniqueIndexCrc = 0\<rparr>
      | Some (i, index) \<Rightarrow>
          \<lparr>m_noAvailableUniqueIndex = False, m_smallestUniqueIndex = Some (i, index),
           m_smallestUniqueIndexCrc =
             crc32cFinish crc (crc32c crc (crc32cInit crc) (getColumnIndices index))\<rparr>)"

text \<open>
  \<open>getUniqueIndexForDR\<close> returns the pair and the cache it leaves behind. The first
  argument is \<open>getIsActiveActiveDREnabled()\<close> of the engine.
\<close>

definition getUniqueIndexForDR ::
    "bool \<Rightarrow> crc32c_functions \<Rightarrow> table_index list \<Rightarrow> dr_index_cache \<Rightarrow>
     ((nat \<times> table_index) option \<times> 32 word) \<times> dr_index_cache" where
  "getUniqueIndexForDR isActiveActive crc m_indexes cache =
     (if isActiveActive then ((None, 0), cache)
      else
        let cache' =
              (if m_smallestUniqueIndex cache = None \<and> \<not> m_noAvailableUniqueIndex cache
               then computeSmallestUniqueIndex crc m_indexes
               else cache)
        in ((m_smallestUniqueIndex cache', m_smallestUniqueIndexCrc cache'), cache'))"

text \<open>The cache as the constructor of \<open>PersistentTable\<close> leaves it.\<close>

definition freshCache :: dr_index_cache where
  "freshCache = \<lparr>m_noAvailableUniqueIndex = False, m_smallestUniqueIndex = None,
                  m_smallestUniqueIndexCrc = 0\<rparr>"


text \<open>
  A stand-in for the three CRC functions, for closed terms that need them: it leaves the
  running value as it is.
\<close>

definition placeholderCrc :: crc32c_functions where
  "placeholderCrc = \<lparr>crc32cInit = 0, crc32c = (\<lambda>crc columnIndices. crc), crc32cFinish = (\<lambda>crc. crc)\<rparr>"

section \<open>PersistentTable: storage, lookup and compaction moves\<close>

text \<open>
  Modelled from the spec: \<open>TupleBlock\<close> and \<open>TableIterator\<close> are not part of the sources at
  hand. The tuple slots of all blocks are kept as one list, a slot's address being its
  position; a slot whose tuple is not active is free. A scan visits the slots in address
  order and returns the tuples that are active and flagged neither pending-delete nor
  pending-delete-on-undo-release (the spec: such tuples are hidden from scans).
\<close>

text \<open>
  The table streamer (snapshots, elastic index) is an external collaborator: of its answers
  the table uses three, taken here as given for each tuple address. \<open>notifyTupleInsert\<close>
  and \<open>notifyTupleUpdate\<close> say whether the streamer wants the tuple marked dirty;
  \<open>notifyTupleDelete\<close> says whether the tuple may be freed at once.
\<close>

record table_streamer =
  notifyTupleInsert :: "addr \<Rightarrow> bool"
  notifyTupleUpdate :: "addr \<Rightarrow> bool"
  notifyTupleDelete :: "addr \<Rightarrow> bool"

record persistent_table =
  m_schema :: tuple_schema
  m_allowNulls :: "bool list"
  m_data :: "table_tuple list"
  m_tupleCount :: nat
  m_tupleLimit :: nat
  m_tuplesPinnedByUndo :: nat
  m_invisibleTuplesPendingDeleteCount :: nat
  m_indexes :: "table_index list"
  m_pkeyIndex :: "nat option"            \<comment> \<open>position of the primary key index in \<open>m_indexes\<close>\<close>
  m_isMaterialized :: bool
  m_drEnabled :: bool
  m_drIndexCache :: dr_index_cache
  m_tableStreamer :: "table_streamer option"

definition primaryKeyIndex :: "persistent_table \<Rightarrow> table_index option" where
  "primaryKeyIndex T =
     (case m_pkeyIndex T of
        None \<Rightarrow> None
      | Some i \<Rightarrow> if i < length (m_indexes T) then Some (m_indexes T ! i) else None)"

definition isVisible :: "table_tuple \<Rightarrow> bool" where
  "isVisible t = (isActive t \<and> \<not> isPendingDelete t \<and> \<not> isPendingDeleteOnUndoRelease t)"

datatype LookupType = LOOKUP_BY_VALUES | LOOKUP_FOR_DR | LOOKUP_FOR_UNDO

text \<open>
  \<open>memcmp\<close> over the first \<open>tuple_length\<close> bytes after the header, with lengths counted in
  columns: \<open>offsetOfHiddenColumns()\<close> is the number of visible columns, \<open>tupleLength()\<close>
  adds the hidden ones.
\<close>

definition offsetOfHiddenColumns :: "tuple_schema \<Rightarrow> nat" where
  "offsetOfHiddenColumns sch = columnCount sch"

definition tupleLength :: "tuple_schema \<Rightarrow> nat" where
  "tupleLength sch = columnCount sch + hiddenColumnCount sch"

definition tupleData :: "table_tuple \<Rightarrow> (nvalue + nat \<times> string) list" where
  "tupleData t = map rawBytes (columns t @ hiddenColumns t)"

definition memcmpEqual :: "table_tuple \<Rightarrow> table_tuple \<Rightarrow> nat \<Rightarrow> bool" where
  "memcmpEqual tableTuple tuple tuple_length =
     (take tuple_length (tupleData tableTuple) = take tuple_length (tupleData tuple))"

text \<open>
  Modelled from the spec: \<open>TableTuple::equalsNoSchemaCheck\<close> (common/tabletuple.h) is not
  part of the sources at hand. It compares the values of the visible columns, and those of
  the hidden columns when asked to.
\<close>

definition equalsNoSchemaCheck :: "table_tuple \<Rightarrow> table_tuple \<Rightarrow> bool \<Rightarrow> bool" where
  "equalsNoSchemaCheck tableTuple tuple includeHiddenColumns =
     (map getValue (columns tableTuple) = map getValue (columns tuple) \<and>
      (if includeHiddenColumns
       then map getValue (hiddenColumns tableTuple) = map getValue (hiddenColumns tuple)
       else True))"

text \<open>The \<open>while (ti.hasNext())\<close> loops of \<open>lookupTuple\<close>: the first visible match.\<close>

fun scanForTuple :: "(table_tuple \<Rightarrow> bool) \<Rightarrow> addr \<Rightarrow> table_tuple list \<Rightarrow> addr option" where
  "scanForTuple matches a [] = None"
| "scanForTuple matches a (tableTuple # rest) =
     (if isVisible tableTuple \<and> matches tableTuple then Some a
      else scanForTuple matches (Suc a) rest)"

definition lookupTuple :: "persistent_table \<Rightarrow> table_tuple \<Rightarrow> LookupType \<Rightarrow> addr option" where
  "lookupTuple T tuple lookupType =
     (case primaryKeyIndex T of
        None \<Rightarrow>
          if lookupType = LOOKUP_FOR_UNDO \<or> getUninlinedObjectColumnCount (m_schema T) = 0
          then
            let tuple_length =
                  (if lookupType = LOOKUP_BY_VALUES \<and> hiddenColumnCount (m_schema T) > 0
                   then offsetOfHiddenColumns (m_schema T)
                   else tupleLength (m_schema T))
            in scanForTuple (\<lambda>tableTuple. memcmpEqual tableTuple tuple tuple_length) 0 (m_data T)
          else
            let includeHiddenColumns = (lookupType = LOOKUP_FOR_DR)
            in scanForTuple
                 (\<lambda>tableTuple. equalsNoSchemaCheck tableTuple tuple includeHiddenColumns) 0 (m_data T)
      | Some pkeyIndex \<Rightarrow> uniqueMatchingTuple pkeyIndex tuple)"



text \<open>
  How a function of the table ends: it returns, it throws one of the two exceptions that
  callers catch, it throws a fatal exception (\<open>throwFatalException\<close>), or an \<open>assert\<close> fails.
  A constraint failure carries the address of the conflicting tuple when there is one.
  An \<open>assert\<close> is a check only in a build without \<open>NDEBUG\<close>: the functions that have one
  take the build as a flag (true for a build with \<open>NDEBUG\<close>), end with \<open>AssertionFailed\<close>
  where a checked assertion does not hold, and go on past it otherwise.
\<close>

datatype constraint_type =
    CONSTRAINT_TYPE_NOT_NULL | CONSTRAINT_TYPE_UNIQUE | CONSTRAINT_TYPE_ROW_LIMIT

datatype outcome =
    Returned
  | ConstraintFailureException constraint_type "addr option"
  | TupleStreamException
  | FatalException
  | AssertionFailed




section \<open>The DR tuple stream\<close>

text \<open>
  Modelled from the spec: the bodies of \<open>appendTuple\<close>, \<open>appendUpdateRecord\<close>,
  \<open>beginTransaction\<close>, \<open>endTransaction\<close>, \<open>rollbackTo\<close> and \<open>periodicFlush\<close>
  (DRTupleStream.cpp, AbstractDRTupleStream.cpp, TupleStreamBase.cpp) are not part of the
  sources at hand; the two headers declare them and their members. The model follows the
  spec's section on the DR tuple stream:
  \<^item> a transaction is begun by the first append that finds none open (the header: a
    transaction that generated no binary log data was never begun); the begin record is led
    by the protocol version byte;
  \<^item> each append returns a mark, the byte offset before the append, and adds the cost of
    the row to the per-transaction row count; it fails with a buffer overflow when the row
    count would exceed the row target, or when the open transaction with its padding would
    not fit the secondary capacity; the spec has the begin precede the append and says
    nothing of a failed append taking anything back, so an append that fails leaves the
    transaction that it began open, with its begin record;
  \<^item> \<open>rollbackTo(mark, rowCost)\<close> truncates the buffer to the mark and takes the cost off
    the row count; a rollback that takes the begin record away leaves no transaction open
    (test PartitionedTableRollbacks: the transaction that follows an aborted one commits
    under the sequence number that the aborted one was begun with);
    the mark \<open>INVALID_DR_MARK\<close> stands for no append, and rolls nothing back;
  \<^item> \<open>endTransaction\<close> does nothing when no transaction is open; otherwise it writes the
    end record and moves the committed offset, sequence number and unique id forward;
  \<^item> a flush hands the committed bytes not yet handed over to the topend, and nothing when
    there are none.
  The stream keeps every byte it wrote, the offset of a byte being its position. The bytes
  of the records are parameters, as is the cost of a row of each record type
  (\<open>rowCostForDRRecord\<close>).
\<close>

type_synonym byte = "8 word"

datatype DRRecordType = DR_RECORD_INSERT | DR_RECORD_DELETE | DR_RECORD_UPDATE

definition MAGIC_DR_TRANSACTION_PADDING :: nat where
  "MAGIC_DR_TRANSACTION_PADDING = 78"

definition SECONDARY_BUFFER_SIZE :: nat where
  "SECONDARY_BUFFER_SIZE = (45 * 1024 * 1024) + 4096"

definition INVALID_DR_MARK :: nat where
  "INVALID_DR_MARK = 2 ^ 64 - 1"

record dr_codec =
  beginRecordBody :: "int \<Rightarrow> int \<Rightarrow> byte list"    \<comment> \<open>sequence number, unique id\<close>
  endRecord :: "int \<Rightarrow> byte list \<Rightarrow> byte list"     \<comment> \<open>sequence number, bytes of the transaction\<close>
  rowRecord :: "DRRecordType \<Rightarrow> table_tuple list \<Rightarrow>
                (nat \<times> table_index) option \<times> 32 word \<Rightarrow> byte list"
  rowCostForDRRecord :: "DRRecordType \<Rightarrow> nat"
  isMpUniqueId :: "int \<Rightarrow> bool"
  crcFunctions :: crc32c_functions

record dr_tuple_stream =
  m_enabled :: bool
  m_secondaryCapacity :: nat
  m_rowTarget :: int
  m_opened :: bool
  m_txnRowCount :: nat
  m_buffer :: "byte list"
  m_beginTxnUso :: nat
  m_openSequenceNumber :: int
  m_committedUso :: nat
  m_committedSequenceNumber :: int
  m_lastCommittedSpUniqueId :: int
  m_lastCommittedMpUniqueId :: int
  m_flushedUso :: nat

definition beginTransaction ::
    "dr_codec \<Rightarrow> int \<Rightarrow> int \<Rightarrow> dr_tuple_stream \<Rightarrow> dr_tuple_stream" where
  "beginTransaction codec sequenceNumber uniqueId s =
     s\<lparr>m_opened := True,
       m_txnRowCount := 0,
       m_beginTxnUso := length (m_buffer s),
       m_openSequenceNumber := sequenceNumber,
       m_buffer := m_buffer s @ PROTOCOL_VERSION # beginRecordBody codec sequenceNumber uniqueId\<rparr>"

text \<open>
  The common body of \<open>appendTuple\<close> and \<open>appendUpdateRecord\<close>: the outcome, the mark and the
  stream. A failed append writes no row and counts none.
\<close>

definition appendRecord ::
    "dr_codec \<Rightarrow> int \<Rightarrow> DRRecordType \<Rightarrow> byte list \<Rightarrow> dr_tuple_stream \<Rightarrow>
     outcome \<times> nat \<times> dr_tuple_stream" where
  "appendRecord codec uniqueId type row s =
     (if \<not> m_enabled s then (Returned, INVALID_DR_MARK, s)
      else
        let startingUso = length (m_buffer s);
            s1 = (if m_opened s then s
                  else beginTransaction codec (m_committedSequenceNumber s + 1) uniqueId s);
            rows = m_txnRowCount s1 + rowCostForDRRecord codec type;
            buffer = m_buffer s1 @ row
        in if m_rowTarget s < int rows \<or>
              m_secondaryCapacity s <
                MAGIC_DR_TRANSACTION_PADDING + (length buffer - m_beginTxnUso s1)
           then (TupleStreamException, INVALID_DR_MARK, s1)
           else (Returned, startingUso, s1\<lparr>m_txnRowCount := rows, m_buffer := buffer\<rparr>))"

definition rollbackTo :: "nat \<Rightarrow> nat \<Rightarrow> dr_tuple_stream \<Rightarrow> dr_tuple_stream" where
  "rollbackTo mark drRowCost s =
     (if mark = INVALID_DR_MARK then s
      else s\<lparr>m_txnRowCount := m_txnRowCount s - drRowCost,
             m_opened := (if mark \<le> m_beginTxnUso s then False else m_opened s),
             m_buffer := take mark (m_buffer s)\<rparr>)"

definition endTransaction :: "dr_codec \<Rightarrow> int \<Rightarrow> dr_tuple_stream \<Rightarrow> dr_tuple_stream" where
  "endTransaction codec uniqueId s =
     (if \<not> m_opened s then s
      else
        let buffer = m_buffer s @
              endRecord codec (m_openSequenceNumber s) (drop (m_beginTxnUso s) (m_buffer s));
            s1 = s\<lparr>m_opened := False, m_txnRowCount := 0, m_buffer := buffer,
                    m_committedUso := length buffer,
                    m_committedSequenceNumber := m_openSequenceNumber s\<rparr>
        in if isMpUniqueId codec uniqueId
           then s1\<lparr>m_lastCommittedMpUniqueId := uniqueId\<rparr>
           else s1\<lparr>m_lastCommittedSpUniqueId := uniqueId\<rparr>)"

text \<open>\<open>periodicFlush\<close>: the block handed to the topend, if any, and the stream.\<close>

definition periodicFlush :: "dr_tuple_stream \<Rightarrow> byte list option \<times> dr_tuple_stream" where
  "periodicFlush s =
     (if m_flushedUso s < m_committedUso s
      then (Some (drop (m_flushedUso s) (take (m_committedUso s) (m_buffer s))),
            s\<lparr>m_flushedUso := m_committedUso s\<rparr>)
      else (None, s))"

definition getLastCommittedSequenceNumberAndUniqueIds ::
    "dr_tuple_stream \<Rightarrow> int \<times> int \<times> int" where
  "getLastCommittedSequenceNumberAndUniqueIds s =
     (m_committedSequenceNumber s, m_lastCommittedSpUniqueId s, m_lastCommittedMpUniqueId s)"

text \<open>
  What of a stream can be observed: its bytes, whether a transaction is open and, if so,
  where it began and under which sequence number, the row count, and the committed and
  flushed positions. The begin offset and the open sequence number of a stream with no open
  transaction are left-overs.
\<close>

definition streamView ::
    "dr_tuple_stream \<Rightarrow>
     (bool \<times> nat \<times> int) \<times> (byte list \<times> (nat \<times> int) option \<times> nat) \<times>
     (nat \<times> int \<times> int \<times> int \<times> nat)" where
  "streamView s =
     ((m_enabled s, m_secondaryCapacity s, m_rowTarget s),
      (m_buffer s,
       (if m_opened s then Some (m_beginTxnUso s, m_openSequenceNumber s) else None),
       m_txnRowCount s),
      (m_committedUso s, m_committedSequenceNumber s, m_lastCommittedSpUniqueId s,
       m_lastCommittedMpUniqueId s, m_flushedUso s))"

text \<open>
  A stream as the operations above leave it: no rows counted outside a transaction; the
  begin record of the open transaction inside the buffer and after the committed bytes; the
  open transaction within the secondary capacity, and the offsets that a transaction begun
  here can reach below \<open>INVALID_DR_MARK\<close>.
\<close>

definition streamWellFormed :: "dr_tuple_stream \<Rightarrow> bool" where
  "streamWellFormed s =
     (m_committedUso s \<le> length (m_buffer s) \<and>
      m_flushedUso s \<le> m_committedUso s \<and>
      (if m_opened s
       then m_committedUso s \<le> m_beginTxnUso s \<and> m_beginTxnUso s < length (m_buffer s) \<and>
            length (m_buffer s) \<le> m_beginTxnUso s + m_secondaryCapacity s \<and>
            m_beginTxnUso s + m_secondaryCapacity s < INVALID_DR_MARK
       else m_txnRowCount s = 0 \<and>
            length (m_buffer s) + m_secondaryCapacity s < INVALID_DR_MARK))"

section \<open>PersistentTable: insert, delete and update\<close>

text \<open>
  The state that the three operations read and write: the table, the DR stream of the
  executor context (\<open>getDRTupleStream(ec)\<close>, possibly null), the current undo quantum
  (possibly null; the action registered last comes first), the allocator of non-inlined
  objects (the next free pointer), the values of the executor context that reach the
  tuples and the stream, and whether the engine was built with \<open>NDEBUG\<close>. Views are opaque
  observers and memory statistics are not kept.
\<close>

datatype undo_action =
    PersistentTableUndoInsertAction table_tuple nat
      \<comment> \<open>pooled copy of the inserted tuple; DR mark\<close>
  | PersistentTableUndoDeleteAction addr nat
      \<comment> \<open>address of the tuple in the table; DR mark\<close>
  | PersistentTableUndoUpdateAction table_tuple table_tuple bool nat
      \<comment> \<open>pooled copies of the tuple before and after; whether indexes were touched; DR mark\<close>

record engine =
  table :: persistent_table
  drStream :: "dr_tuple_stream option"
  currentUndoQuantum :: "undo_action list option"
  nextObject :: nat
  currentUniqueId :: int
  currentDRTimestamp :: int
  isActiveActiveDREnabled :: bool
  NDEBUG :: bool

definition visibleTupleCount :: "persistent_table \<Rightarrow> nat" where
  "visibleTupleCount T = m_tupleCount T - m_invisibleTuplesPendingDeleteCount T"

definition hasDRTimestampColumn :: "persistent_table \<Rightarrow> bool" where
  \<comment> \<open>\<open>initializeWithColumns\<close>: the first hidden column, when there is exactly one\<close>
  "hasDRTimestampColumn T = (hiddenColumnCount (m_schema T) = 1)"

definition getHiddenNValue :: "table_tuple \<Rightarrow> nat \<Rightarrow> nvalue" where
  "getHiddenNValue t i =
     (if i < length (hiddenColumns t) then getValue (hiddenColumns t ! i) else NullValue)"

definition setDRTimestampForTuple :: "int \<Rightarrow> table_tuple \<Rightarrow> bool \<Rightarrow> table_tuple" where
  "setDRTimestampForTuple drTimestamp tuple update =
     (if update \<or> getHiddenNValue tuple 0 = NullValue
      then tuple\<lparr>hiddenColumns := (hiddenColumns tuple)[0 := Inlined (IntValue drTimestamp)]\<rparr>
      else tuple)"

definition checkNulls :: "persistent_table \<Rightarrow> table_tuple \<Rightarrow> bool" where
  "checkNulls T tuple =
     list_all (\<lambda>i. m_allowNulls T ! i \<or> getNValue tuple i \<noteq> NullValue)
       (rev [0..<columnCount (m_schema T)])"

definition setSlot :: "persistent_table \<Rightarrow> addr \<Rightarrow> table_tuple \<Rightarrow> persistent_table" where
  "setSlot T a t = T\<lparr>m_data := (m_data T)[a := t]\<rparr>"

text \<open>
  Modelled from the spec: \<open>TupleBlock::nextFreeTuple\<close> and the block freelists are not part of
  the sources at hand. \<open>nextFreeTuple\<close> hands out the first free slot in address order, and a
  new slot at the end of the storage when none is free; a new slot is cleared.
\<close>

definition clearedSlot :: table_tuple where
  "clearedSlot = \<lparr>isActive = False, isDirty = False, isPendingDelete = False,
                   isPendingDeleteOnUndoRelease = False, columns = [], hiddenColumns = []\<rparr>"

fun firstFreeSlot :: "table_tuple list \<Rightarrow> addr \<Rightarrow> addr" where
  "firstFreeSlot [] a = a"
| "firstFreeSlot (t # rest) a = (if \<not> isActive t then a else firstFreeSlot rest (Suc a))"

definition nextFreeTuple :: "persistent_table \<Rightarrow> addr \<times> persistent_table" where
  "nextFreeTuple T =
     (let a = firstFreeSlot (m_data T) 0
      in (a, T\<lparr>m_data := (if a < length (m_data T) then m_data T else m_data T @ [clearedSlot]),
               m_tupleCount := m_tupleCount T + 1\<rparr>))"

text \<open>
  Modelled from the spec: \<open>TableTuple::copyForPersistentInsert\<close> and
  \<open>copyForPersistentUpdate\<close> (common/tabletuple.h) are not part of the sources at hand.
  The insert copy takes header and columns from the source and gives every non-inlined
  column an object of its own. The update copy takes header, hidden columns and inlined
  values from the source, keeps a non-inlined column whose pointer has not changed and gives
  a changed one an object of its own.
\<close>

fun copyObjects :: "nat \<Rightarrow> column_storage list \<Rightarrow> column_storage list \<times> nat" where
  "copyObjects next [] = ([], next)"
| "copyObjects next (Inlined v # rest) =
     (case copyObjects next rest of (rest', next') \<Rightarrow> (Inlined v # rest', next'))"
| "copyObjects next (NonInlined p s # rest) =
     (case copyObjects (Suc next) rest of (rest', next') \<Rightarrow> (NonInlined next s # rest', next'))"

definition copyForPersistentInsert :: "nat \<Rightarrow> table_tuple \<Rightarrow> table_tuple \<times> nat" where
  "copyForPersistentInsert next source =
     (case copyObjects next (columns source) of
        (cols, next') \<Rightarrow> (source\<lparr>columns := cols\<rparr>, next'))"

fun updateObjects ::
    "nat \<Rightarrow> column_storage list \<Rightarrow> column_storage list \<Rightarrow> column_storage list \<times> nat" where
  "updateObjects next target [] = ([], next)"
| "updateObjects next target (Inlined v # rest) =
     (case updateObjects next (tl target) rest of (rest', next') \<Rightarrow> (Inlined v # rest', next'))"
| "updateObjects next target (NonInlined p s # rest) =
     (if target \<noteq> [] \<and> hd target = NonInlined p s
      then (case updateObjects next (tl target) rest of
              (rest', next') \<Rightarrow> (NonInlined p s # rest', next'))
      else (case updateObjects (Suc next) (tl target) rest of
              (rest', next') \<Rightarrow> (NonInlined next s # rest', next')))"

definition copyForPersistentUpdate ::
    "nat \<Rightarrow> table_tuple \<Rightarrow> table_tuple \<Rightarrow> table_tuple \<times> nat" where
  "copyForPersistentUpdate next target source =
     (case updateObjects next (columns target) (columns source) of
        (cols, next') \<Rightarrow> (source\<lparr>columns := cols\<rparr>, next'))"

text \<open>
  Modelled from the spec: \<open>deleteTupleStorage\<close> (storage/persistenttable.h) is not part of
  the sources at hand. It deactivates the tuple, clears its pending flags and returns the
  slot to the free slots.
\<close>

definition deleteTupleStorage :: "persistent_table \<Rightarrow> addr \<Rightarrow> persistent_table" where
  "deleteTupleStorage T a =
     T\<lparr>m_data := (m_data T)[a := (m_data T ! a)\<lparr>isActive := False, isPendingDelete := False,
                                 isPendingDeleteOnUndoRelease := False\<rparr>],
       m_tupleCount := m_tupleCount T - 1\<rparr>"

text \<open>
  The DR emission that each of the three operations performs before it touches the indexes:
  under the operation's guard (\<open>drStream && !m_isMaterialized && m_drEnabled\<close>) it asks for
  the unique index for DR and appends the record. It yields the outcome of the append, the
  mark \<open>drMark\<close> (\<open>INVALID_DR_MARK\<close> when nothing was appended) and the state.
\<close>

definition drAppend ::
    "dr_codec \<Rightarrow> engine \<Rightarrow> bool \<Rightarrow> DRRecordType \<Rightarrow> table_tuple list \<Rightarrow>
     outcome \<times> nat \<times> engine" where
  "drAppend codec E shouldDRStream type tuples =
     (case drStream E of
        None \<Rightarrow> (Returned, INVALID_DR_MARK, E)
      | Some stream \<Rightarrow>
          if \<not> m_isMaterialized (table E) \<and> m_drEnabled (table E) \<and> shouldDRStream then
            (case getUniqueIndexForDR (isActiveActiveDREnabled E) (crcFunctions codec)
                    (m_indexes (table E)) (m_drIndexCache (table E)) of
               (uniqueIndex, cache) \<Rightarrow>
                 (case appendRecord codec (currentUniqueId E) type
                         (rowRecord codec type tuples uniqueIndex) stream of
                    (out, drMark, stream') \<Rightarrow>
                      (out, drMark,
                       E\<lparr>table := (table E)\<lparr>m_drIndexCache := cache\<rparr>,
                         drStream := Some stream'\<rparr>)))
          else (Returned, INVALID_DR_MARK, E))"

text \<open>
  Modelled from the spec: \<open>PersistentTableSurgeon::DRRollback\<close> (storage/persistenttable.h) is
  not part of the sources at hand. It rolls the DR stream of a DR-enabled table back to the
  mark.
\<close>

definition DRRollback :: "engine \<Rightarrow> nat \<Rightarrow> nat \<Rightarrow> engine" where
  "DRRollback E drMark drRowCost =
     (if \<not> m_isMaterialized (table E) \<and> m_drEnabled (table E)
      then E\<lparr>drStream := map_option (rollbackTo drMark drRowCost) (drStream E)\<rparr>
      else E)"

text \<open>
  \<open>tryInsertOnAllIndexes\<close>: the indexes already passed, those still to come. On the first
  conflict the entries added so far are deleted again and the conflicting tuple is returned.
\<close>

definition deleteEntryIfPresent :: "table_tuple \<Rightarrow> addr \<Rightarrow> table_index \<Rightarrow> table_index" where
  "deleteEntryIfPresent t a index =
     (case deleteEntry index t a of None \<Rightarrow> index | Some index' \<Rightarrow> index')"

fun tryInsertOnAllIndexes ::
    "table_index list \<Rightarrow> table_index list \<Rightarrow> table_tuple \<Rightarrow> addr \<Rightarrow>
     addr option \<times> table_index list" where
  "tryInsertOnAllIndexes passed [] t a = (None, passed)"
| "tryInsertOnAllIndexes passed (index # rest) t a =
     (case addEntry index t a of
        Inl conflict \<Rightarrow> (Some conflict, map (deleteEntryIfPresent t a) passed @ index # rest)
      | Inr index' \<Rightarrow> tryInsertOnAllIndexes (passed @ [index']) rest t a)"

text \<open>\<open>deleteFromAllIndexes\<close>: false when an index does not hold the entry (fatal).\<close>

fun deleteFromAllIndexes ::
    "table_index list \<Rightarrow> table_tuple \<Rightarrow> addr \<Rightarrow> bool \<times> table_index list" where
  "deleteFromAllIndexes [] t a = (True, [])"
| "deleteFromAllIndexes (index # rest) t a =
     (case deleteEntry index t a of
        None \<Rightarrow> (False, index # rest)
      | Some index' \<Rightarrow>
          (case deleteFromAllIndexes rest t a of (ok, rest') \<Rightarrow> (ok, index' # rest')))"

text \<open>\<open>insertIntoAllIndexes\<close>, and the same loop in \<open>updateTupleForUndo\<close>: false on a conflict.\<close>

fun insertIntoAllIndexes ::
    "table_index list \<Rightarrow> table_tuple \<Rightarrow> addr \<Rightarrow> bool \<times> table_index list" where
  "insertIntoAllIndexes [] t a = (True, [])"
| "insertIntoAllIndexes (index # rest) t a =
     (case addEntry index t a of
        Inl conflict \<Rightarrow> (False, index # rest)
      | Inr index' \<Rightarrow>
          (case insertIntoAllIndexes rest t a of (ok, rest') \<Rightarrow> (ok, index' # rest')))"

definition registerUndoAction :: "engine \<Rightarrow> undo_action \<Rightarrow> engine" where
  "registerUndoAction E action =
     E\<lparr>currentUndoQuantum := map_option ((#) action) (currentUndoQuantum E)\<rparr>"

definition streamerSays ::
    "persistent_table \<Rightarrow> (table_streamer \<Rightarrow> addr \<Rightarrow> bool) \<Rightarrow> addr \<Rightarrow> bool" where
  "streamerSays T notify a =
     (case m_tableStreamer T of None \<Rightarrow> False | Some streamer \<Rightarrow> notify streamer a)"

definition insertTupleCommon ::
    "dr_codec \<Rightarrow> engine \<Rightarrow> addr \<Rightarrow> bool \<Rightarrow> bool \<Rightarrow> outcome \<times> engine" where
  "insertTupleCommon codec E target fallible shouldDRStream =
     (if fallible \<and> \<not> checkNulls (table E) (m_data (table E) ! target)
      then (ConstraintFailureException CONSTRAINT_TYPE_NOT_NULL None, E)
      else
        let E1 = (if hasDRTimestampColumn (table E)
                  then E\<lparr>table := setSlot (table E) target
                         (setDRTimestampForTuple (currentDRTimestamp E)
                            (m_data (table E) ! target) False)\<rparr>
                  else E)
        in case drAppend codec E1 shouldDRStream DR_RECORD_INSERT
                  [m_data (table E1) ! target] of
             (out, drMark, E2) \<Rightarrow>
               if out \<noteq> Returned then (out, E2)
               else
                 let t = (m_data (table E2) ! target)
                           \<lparr>isActive := True, isPendingDelete := False,
                            isPendingDeleteOnUndoRelease := False\<rparr>;
                     t' = (if streamerSays (table E2) notifyTupleInsert target then t
                           else t\<lparr>isDirty := False\<rparr>);
                     T3 = setSlot (table E2) target t'
                 in case tryInsertOnAllIndexes [] (m_indexes T3) t' target of
                      (Some conflict, indexes) \<Rightarrow>
                        (ConstraintFailureException CONSTRAINT_TYPE_UNIQUE (Some conflict),
                         DRRollback (E2\<lparr>table := T3\<lparr>m_indexes := indexes\<rparr>\<rparr>) drMark
                           (rowCostForDRRecord codec DR_RECORD_INSERT))
                    | (None, indexes) \<Rightarrow>
                        (Returned,
                         let E4 = E2\<lparr>table := T3\<lparr>m_indexes := indexes\<rparr>\<rparr>
                         in if fallible
                            then registerUndoAction E4 (PersistentTableUndoInsertAction t' drMark)
                            else E4))"

definition insertPersistentTuple ::
    "dr_codec \<Rightarrow> engine \<Rightarrow> table_tuple \<Rightarrow> bool \<Rightarrow> outcome \<times> engine" where
  "insertPersistentTuple codec E source fallible =
     (if fallible \<and> m_tupleLimit (table E) \<le> visibleTupleCount (table E)
      then (ConstraintFailureException CONSTRAINT_TYPE_ROW_LIMIT None, E)
      else
        case nextFreeTuple (table E) of
          (target, T1) \<Rightarrow>
            (case copyForPersistentInsert (nextObject E) source of
               (stored, next) \<Rightarrow>
                 (case insertTupleCommon codec
                         (E\<lparr>table := setSlot T1 target stored, nextObject := next\<rparr>)
                         target fallible True of
                    (ConstraintFailureException c conflict, E') \<Rightarrow>
                      (ConstraintFailureException c conflict,
                       E'\<lparr>table := deleteTupleStorage (table E') target\<rparr>)
                  | (TupleStreamException, E') \<Rightarrow>
                      (TupleStreamException,
                       E'\<lparr>table := deleteTupleStorage (table E') target\<rparr>)
                  | (out, E') \<Rightarrow> (out, E'))))"

definition deleteTupleFinalize :: "persistent_table \<Rightarrow> addr \<Rightarrow> persistent_table" where
  "deleteTupleFinalize T target =
     (case m_tableStreamer T of
        None \<Rightarrow> deleteTupleStorage T target
      | Some streamer \<Rightarrow>
          if \<not> notifyTupleDelete streamer target then
            (if isPendingDelete (m_data T ! target) then T
             else (setSlot T target ((m_data T ! target)\<lparr>isPendingDelete := True\<rparr>))
                    \<lparr>m_invisibleTuplesPendingDeleteCount :=
                       m_invisibleTuplesPendingDeleteCount T + 1\<rparr>)
          else deleteTupleStorage T target)"

text \<open>
  \<open>deleteTuple\<close>. \<open>SetAndRestorePendingDeleteFlag\<close> asserts that the tuple is not flagged
  pending-delete, flags it while the views are told, and clears the flag when its scope ends.
\<close>

definition deleteTuple :: "dr_codec \<Rightarrow> engine \<Rightarrow> addr \<Rightarrow> bool \<Rightarrow> outcome \<times> engine" where
  "deleteTuple codec E target fallible =
     (if \<not> NDEBUG E \<and> \<not> isActive (m_data (table E) ! target) then (AssertionFailed, E)
      else
        case drAppend codec E True DR_RECORD_DELETE [m_data (table E) ! target] of
          (out, drMark, E1) \<Rightarrow>
            if out \<noteq> Returned then (out, E1)
            else
              (case deleteFromAllIndexes (m_indexes (table E1))
                      (m_data (table E1) ! target) target of
                 (ok, indexes) \<Rightarrow>
                   let E2 = E1\<lparr>table := (table E1)\<lparr>m_indexes := indexes\<rparr>\<rparr>
                   in if \<not> ok then (FatalException, E2)
                      else if \<not> NDEBUG E \<and> isPendingDelete (m_data (table E2) ! target)
                      then (AssertionFailed, E2)
                      else
                        let E3 = E2\<lparr>table := setSlot (table E2) target
                                    ((m_data (table E2) ! target)\<lparr>isPendingDelete := False\<rparr>)\<rparr>
                        in if fallible \<and> currentUndoQuantum E3 \<noteq> None then
                             (Returned,
                              registerUndoAction
                                (E3\<lparr>table :=
                                      (setSlot (table E3) target
                                         ((m_data (table E3) ! target)
                                            \<lparr>isPendingDeleteOnUndoRelease := True\<rparr>))
                                      \<lparr>m_tuplesPinnedByUndo := m_tuplesPinnedByUndo (table E3) + 1,
                                       m_invisibleTuplesPendingDeleteCount :=
                                         m_invisibleTuplesPendingDeleteCount (table E3) + 1\<rparr>\<rparr>)
                                (PersistentTableUndoDeleteAction target drMark))
                           else (Returned, E3\<lparr>table := deleteTupleFinalize (table E3) target\<rparr>)))"

text \<open>
  \<open>updateTupleWithSpecificIndexes\<close>. The indexes to update are given by their positions in
  \<open>m_indexes\<close>. The first loop removes the tuple from the indexes whose key changes (or uses
  non-inlined memory) and remembers which (\<open>indexRequiresUpdate\<close>); the second loop adds the
  updated tuple back to those.
\<close>

fun checkUpdateOnUniqueIndexes ::
    "table_index list \<Rightarrow> table_tuple \<Rightarrow> table_tuple \<Rightarrow> nat list \<Rightarrow> bool" where
  "checkUpdateOnUniqueIndexes indexes target source [] = True"
| "checkUpdateOnUniqueIndexes indexes target source (p # rest) =
     (if isUniqueIndex (indexes ! p) \<and> checkForIndexChange (indexes ! p) target source \<and>
         existsKey (indexes ! p) source
      then False
      else checkUpdateOnUniqueIndexes indexes target source rest)"

fun removeFromIndexesToUpdate ::
    "table_index list \<Rightarrow> nat list \<Rightarrow> table_tuple \<Rightarrow> table_tuple \<Rightarrow> addr \<Rightarrow>
     bool \<times> table_index list \<times> bool list" where
  "removeFromIndexesToUpdate indexes [] target source a = (True, indexes, [])"
| "removeFromIndexesToUpdate indexes (p # rest) target source a =
     (if \<not> keyUsesNonInlinedMemory (indexes ! p) \<and>
         \<not> checkForIndexChange (indexes ! p) target source
      then (case removeFromIndexesToUpdate indexes rest target source a of
              (ok, indexes', required) \<Rightarrow> (ok, indexes', False # required))
      else (case deleteEntry (indexes ! p) target a of
              None \<Rightarrow> (False, indexes, [])
            | Some index' \<Rightarrow>
                (case removeFromIndexesToUpdate (indexes[p := index']) rest target source a of
                   (ok, indexes', required) \<Rightarrow> (ok, indexes', True # required))))"

fun addToIndexesToUpdate ::
    "table_index list \<Rightarrow> nat list \<Rightarrow> bool list \<Rightarrow> table_tuple \<Rightarrow> addr \<Rightarrow>
     bool \<times> table_index list" where
  "addToIndexesToUpdate indexes (p # rest) (required # others) t a =
     (if \<not> required then addToIndexesToUpdate indexes rest others t a
      else (case addEntry (indexes ! p) t a of
              Inl conflict \<Rightarrow> (False, indexes)
            | Inr index' \<Rightarrow> addToIndexesToUpdate (indexes[p := index']) rest others t a))"
| "addToIndexesToUpdate indexes ps required t a = (True, indexes)"

definition updateTupleWithSpecificIndexes ::
    "dr_codec \<Rightarrow> engine \<Rightarrow> addr \<Rightarrow> table_tuple \<Rightarrow> nat list \<Rightarrow> bool \<Rightarrow> bool \<Rightarrow>
     outcome \<times> engine" where
  "updateTupleWithSpecificIndexes codec E targetTupleToUpdate sourceTupleWithNewValues
       indexesToUpdate fallible updateDRTimestamp =
     (let target = m_data (table E) ! targetTupleToUpdate in
      if fallible \<and>
         \<not> checkUpdateOnUniqueIndexes (m_indexes (table E)) target sourceTupleWithNewValues
             indexesToUpdate
      then (ConstraintFailureException CONSTRAINT_TYPE_UNIQUE (Some targetTupleToUpdate), E)
      else if fallible \<and> \<not> checkNulls (table E) sourceTupleWithNewValues
      then (ConstraintFailureException CONSTRAINT_TYPE_NOT_NULL (Some targetTupleToUpdate), E)
      else
        let uq = (if fallible then currentUndoQuantum E else None);
            oldTupleData = target;
            source = (if hasDRTimestampColumn (table E) \<and> updateDRTimestamp
                      then setDRTimestampForTuple (currentDRTimestamp E)
                             sourceTupleWithNewValues True
                      else sourceTupleWithNewValues)
        in case drAppend codec E True DR_RECORD_UPDATE [target, source] of
             (out, drMark, E1) \<Rightarrow>
               if out \<noteq> Returned then (out, E1)
               else
                 let T2 = (if streamerSays (table E1) notifyTupleUpdate targetTupleToUpdate
                           then setSlot (table E1) targetTupleToUpdate
                                  ((m_data (table E1) ! targetTupleToUpdate)\<lparr>isDirty := True\<rparr>)
                           else table E1);
                     current = m_data T2 ! targetTupleToUpdate;
                     someIndexGotUpdated = (indexesToUpdate \<noteq> [])
                 in case removeFromIndexesToUpdate (m_indexes T2) indexesToUpdate
                           current source targetTupleToUpdate of
                      (ok, indexes, indexRequiresUpdate) \<Rightarrow>
                        if \<not> ok then (FatalException, E1\<lparr>table := T2\<lparr>m_indexes := indexes\<rparr>\<rparr>)
                        else if \<not> NDEBUG E \<and> isPendingDelete current
                        then (AssertionFailed, E1\<lparr>table := T2\<lparr>m_indexes := indexes\<rparr>\<rparr>)
                        else
                          (case copyForPersistentUpdate (nextObject E1) current
                                  (source\<lparr>isActive := True, isDirty := isDirty current\<rparr>) of
                             (stored, next) \<Rightarrow>
                               let E3 = E1\<lparr>table := setSlot (T2\<lparr>m_indexes := indexes\<rparr>)
                                                    targetTupleToUpdate stored,
                                           nextObject := next\<rparr>;
                                   E4 = (if uq \<noteq> None
                                         then registerUndoAction E3
                                                (PersistentTableUndoUpdateAction oldTupleData
                                                   stored someIndexGotUpdated drMark)
                                         else E3)
                               in (case addToIndexesToUpdate (m_indexes (table E4))
                                          indexesToUpdate indexRequiresUpdate stored
                                          targetTupleToUpdate of
                                     (ok', indexes') \<Rightarrow>
                                       (if ok' then Returned else FatalException,
                                        E4\<lparr>table := (table E4)\<lparr>m_indexes := indexes'\<rparr>\<rparr>))))"

section \<open>PersistentTable: the functions that undo\<close>

definition lookupTupleForUndo :: "persistent_table \<Rightarrow> table_tuple \<Rightarrow> addr option" where
  "lookupTupleForUndo T tuple = lookupTuple T tuple LOOKUP_FOR_UNDO"

text \<open>
  \<open>deleteTupleForUndo\<close> with \<open>skipLookup = false\<close>, as the undo of an insert calls it: the
  tuple data is the pooled copy, and the tuple in the table is looked up.
\<close>

definition deleteTupleForUndo ::
    "bool \<Rightarrow> persistent_table \<Rightarrow> table_tuple \<Rightarrow> outcome \<times> persistent_table" where
  "deleteTupleForUndo ndebug T tupleDataForUndo =
     (case lookupTupleForUndo T tupleDataForUndo of
        None \<Rightarrow> (FatalException, T)
      | Some target \<Rightarrow>
          if \<not> ndebug \<and> \<not> isActive (m_data T ! target) then (AssertionFailed, T)
          else
            (case deleteFromAllIndexes (m_indexes T) (m_data T ! target) target of
               (ok, indexes) \<Rightarrow>
                 if \<not> ok then (FatalException, T\<lparr>m_indexes := indexes\<rparr>)
                 else (Returned, deleteTupleFinalize (T\<lparr>m_indexes := indexes\<rparr>) target)))"

definition insertTupleForUndo :: "persistent_table \<Rightarrow> addr \<Rightarrow> outcome \<times> persistent_table" where
  "insertTupleForUndo T tuple =
     (let T1 = (setSlot T tuple ((m_data T ! tuple)\<lparr>isPendingDeleteOnUndoRelease := False\<rparr>))
                 \<lparr>m_tuplesPinnedByUndo := m_tuplesPinnedByUndo T - 1,
                  m_invisibleTuplesPendingDeleteCount :=
                    m_invisibleTuplesPendingDeleteCount T - 1\<rparr>
      in case tryInsertOnAllIndexes [] (m_indexes T1) (m_data T1 ! tuple) tuple of
           (Some conflict, indexes) \<Rightarrow> (FatalException, T1\<lparr>m_indexes := indexes\<rparr>)
         | (None, indexes) \<Rightarrow> (Returned, T1\<lparr>m_indexes := indexes\<rparr>))"

text \<open>
  \<open>updateTupleForUndo\<close>. The source does not test the tuple that the lookup returns; using a
  null tuple is modelled as a fatal end.
\<close>

definition updateTupleForUndo ::
    "persistent_table \<Rightarrow> table_tuple \<Rightarrow> table_tuple \<Rightarrow> bool \<Rightarrow> outcome \<times> persistent_table" where
  "updateTupleForUndo T tupleWithUnwantedValues sourceTupleDataWithNewValues revertIndexes =
     (let matchable = (if revertIndexes \<or> primaryKeyIndex T = None
                       then tupleWithUnwantedValues
                       else sourceTupleDataWithNewValues)
      in case lookupTupleForUndo T matchable of
           None \<Rightarrow> (FatalException, T)
         | Some targetTupleToUpdate \<Rightarrow>
             (case (if revertIndexes
                    then deleteFromAllIndexes (m_indexes T) (m_data T ! targetTupleToUpdate)
                           targetTupleToUpdate
                    else (True, m_indexes T)) of
                (ok, indexes) \<Rightarrow>
                  if \<not> ok then (FatalException, T\<lparr>m_indexes := indexes\<rparr>)
                  else
                    let dirty = isDirty (m_data T ! targetTupleToUpdate);
                        reverted = sourceTupleDataWithNewValues\<lparr>isDirty := dirty\<rparr>;
                        T1 = setSlot (T\<lparr>m_indexes := indexes\<rparr>) targetTupleToUpdate reverted
                    in (case (if revertIndexes
                              then insertIntoAllIndexes (m_indexes T1) reverted targetTupleToUpdate
                              else (True, m_indexes T1)) of
                          (ok', indexes') \<Rightarrow>
                            (if ok' then Returned else FatalException,
                             T1\<lparr>m_indexes := indexes'\<rparr>))))"

section \<open>Undo actions and transactions\<close>

text \<open>
  Modelled from the spec: the undo action classes and the undo log (UndoQuantum, UndoLog,
  PersistentTableUndoInsertAction and its siblings) are not part of the sources at hand.
  The undo of an action reverses storage and indexes through the function of the table made
  for it, and rolls the DR stream back to the mark of the action with the row cost of its
  record type. Undoing a quantum undoes its actions, the last registered first, and stops
  at an action that does not return.
\<close>

definition undoAction :: "dr_codec \<Rightarrow> engine \<Rightarrow> undo_action \<Rightarrow> outcome \<times> engine" where
  "undoAction codec E action =
     (case action of
        PersistentTableUndoInsertAction tuple drMark \<Rightarrow>
          (case deleteTupleForUndo (NDEBUG E) (table E) tuple of
             (out, T) \<Rightarrow>
               if out \<noteq> Returned then (out, E\<lparr>table := T\<rparr>)
               else (Returned, DRRollback (E\<lparr>table := T\<rparr>) drMark
                                 (rowCostForDRRecord codec DR_RECORD_INSERT)))
      | PersistentTableUndoDeleteAction tuple drMark \<Rightarrow>
          (case insertTupleForUndo (table E) tuple of
             (out, T) \<Rightarrow>
               if out \<noteq> Returned then (out, E\<lparr>table := T\<rparr>)
               else (Returned, DRRollback (E\<lparr>table := T\<rparr>) drMark
                                 (rowCostForDRRecord codec DR_RECORD_DELETE)))
      | PersistentTableUndoUpdateAction oldTuple newTuple revertIndexes drMark \<Rightarrow>
          (case updateTupleForUndo (table E) newTuple oldTuple revertIndexes of
             (out, T) \<Rightarrow>
               if out \<noteq> Returned then (out, E\<lparr>table := T\<rparr>)
               else (Returned, DRRollback (E\<lparr>table := T\<rparr>) drMark
                                 (rowCostForDRRecord codec DR_RECORD_UPDATE))))"

fun undoActions :: "dr_codec \<Rightarrow> engine \<Rightarrow> undo_action list \<Rightarrow> outcome \<times> engine" where
  "undoActions codec E [] = (Returned, E)"
| "undoActions codec E (action # earlier) =
     (case undoAction codec E action of
        (out, E') \<Rightarrow> if out \<noteq> Returned then (out, E') else undoActions codec E' earlier)"

definition undoQuantum :: "dr_codec \<Rightarrow> engine \<Rightarrow> outcome \<times> engine" where
  "undoQuantum codec E =
     (case currentUndoQuantum E of
        None \<Rightarrow> (Returned, E)
      | Some actions \<Rightarrow>
          (case undoActions codec (E\<lparr>currentUndoQuantum := None\<rparr>) actions of
             (out, E') \<Rightarrow> (out, E')))"

text \<open>
  The operations of a transaction, as its statements call them: fallible, under the undo
  quantum of the transaction. A transaction runs its operations in order and stops at the
  first that does not return.
\<close>

datatype table_operation =
    InsertTuple table_tuple
  | DeleteTuple addr
  | UpdateTuple addr table_tuple "nat list" bool
      \<comment> \<open>target, new values, indexes to update, whether to update the DR timestamp\<close>

fun runOperation :: "dr_codec \<Rightarrow> engine \<Rightarrow> table_operation \<Rightarrow> outcome \<times> engine" where
  "runOperation codec E (InsertTuple source) = insertPersistentTuple codec E source True"
| "runOperation codec E (DeleteTuple target) = deleteTuple codec E target True"
| "runOperation codec E (UpdateTuple target source indexesToUpdate updateDRTimestamp) =
     updateTupleWithSpecificIndexes codec E target source indexesToUpdate True updateDRTimestamp"

fun runOperations :: "dr_codec \<Rightarrow> engine \<Rightarrow> table_operation list \<Rightarrow> outcome \<times> engine" where
  "runOperations codec E [] = (Returned, E)"
| "runOperations codec E (operation # later) =
     (case runOperation codec E operation of
        (out, E') \<Rightarrow> if out \<noteq> Returned then (out, E') else runOperations codec E' later)"

text \<open>
  The rows that a scan of the table returns, as a multiset: the columns and hidden columns
  of the visible tuples.
\<close>

definition tupleImage :: "table_tuple \<Rightarrow> column_storage list \<times> column_storage list" where
  "tupleImage t = (columns t, hiddenColumns t)"

definition visibleTuples ::
    "persistent_table \<Rightarrow> (column_storage list \<times> column_storage list) multiset" where
  "visibleTuples T = mset (map tupleImage (filter isVisible (m_data T)))"

section \<open>Binary log sink: conflict classification and conflict export\<close>

text \<open>
  Modelled from the spec: the binary log sink and its conflict reporter (BinaryLogSink) are
  not part of the sources at hand; only their tests are (DRBinaryLog_test.cpp). The model
  follows the per-record semantics of the spec, on the table model above, and the four tuple
  carriers that the tests inspect on the topend:
  \<^item> delete side: the expected row is looked up for DR; not found is a missing row, found
    with another DR timestamp (hidden column) is a mismatch;
  \<^item> insert side: the new row violates a constraint when a unique index holds its key for
    another local row;
  \<^item> an update is a delete followed by an insert: the row that the delete side found does
    not count against the new row;
  \<^item> the carrier of existing rows for the delete is present when the delete side has a
    conflict, and holds the row found if there is one; the carrier of existing rows for the
    insert is present when the insert side has a conflict; the expected row and the new row
    are carried whenever the record has them;
  \<^item> the conflict export writes one row for each tuple of each carrier that is present,
    as the eight conflict tests count them.
\<close>

datatype DRConflictType =
    NO_CONFLICT
  | CONFLICT_CONSTRAINT_VIOLATION
  | CONFLICT_EXPECTED_ROW_MISSING
  | CONFLICT_EXPECTED_ROW_MISMATCH

datatype dr_record =
    InsertRecord table_tuple                 \<comment> \<open>the new row\<close>
  | DeleteRecord table_tuple                 \<comment> \<open>the expected row\<close>
  | UpdateRecord table_tuple table_tuple     \<comment> \<open>the expected row and the new row\<close>

record conflict_report =
  actionType :: DRRecordType
  deleteConflictType :: DRConflictType
  insertConflictType :: DRConflictType
  existingTupleRowsForDelete :: "table_tuple list option"
  expectedTupleRowsForDelete :: "table_tuple list option"
  existingTupleRowsForInsert :: "table_tuple list option"
  newTupleRowsForInsert :: "table_tuple list option"

definition getDRTimestamp :: "table_tuple \<Rightarrow> nvalue" where
  "getDRTimestamp t = (case hiddenColumns t of [] \<Rightarrow> NullValue | c # _ \<Rightarrow> getValue c)"

text \<open>The delete side: the conflict type and the address of the row found.\<close>

definition deleteSide :: "persistent_table \<Rightarrow> table_tuple \<Rightarrow> DRConflictType \<times> addr option" where
  "deleteSide T expected =
     (case lookupTuple T expected LOOKUP_FOR_DR of
        None \<Rightarrow> (CONFLICT_EXPECTED_ROW_MISSING, None)
      | Some a \<Rightarrow>
          if a < length (m_data T) \<and> getDRTimestamp (m_data T ! a) = getDRTimestamp expected
          then (NO_CONFLICT, Some a)
          else (CONFLICT_EXPECTED_ROW_MISMATCH, Some a))"

text \<open>
  The insert side: the addresses of the local rows that hold the key of the new row in a
  unique index, leaving out the row that an update replaces.
\<close>

fun conflictingRows :: "table_index list \<Rightarrow> table_tuple \<Rightarrow> addr option \<Rightarrow> addr list" where
  "conflictingRows [] new replaced = []"
| "conflictingRows (index # rest) new replaced =
     (case (if isUniqueIndex index then uniqueMatchingTuple index new else None) of
        None \<Rightarrow> conflictingRows rest new replaced
      | Some a \<Rightarrow>
          if Some a = replaced then conflictingRows rest new replaced
          else a # conflictingRows rest new replaced)"

definition insertSide ::
    "persistent_table \<Rightarrow> table_tuple \<Rightarrow> addr option \<Rightarrow> DRConflictType \<times> addr list" where
  "insertSide T new replaced =
     (let rows = remdups (conflictingRows (m_indexes T) new replaced)
      in (if rows = [] then NO_CONFLICT else CONFLICT_CONSTRAINT_VIOLATION, rows))"

definition tuplesAt :: "persistent_table \<Rightarrow> addr list \<Rightarrow> table_tuple list" where
  "tuplesAt T as = map (\<lambda>a. m_data T ! a) (filter (\<lambda>a. a < length (m_data T)) as)"

text \<open>
  What the sink reports for one record against the local table: nothing when neither side
  has a conflict.
\<close>

definition buildReport ::
    "persistent_table \<Rightarrow> DRRecordType \<Rightarrow> DRConflictType \<times> addr option \<Rightarrow>
     DRConflictType \<times> addr list \<Rightarrow> table_tuple option \<Rightarrow> table_tuple option \<Rightarrow>
     conflict_report option" where
  "buildReport T action del ins expected new =
     (if fst del = NO_CONFLICT \<and> fst ins = NO_CONFLICT then None
      else Some
        \<lparr>actionType = action,
         deleteConflictType = fst del,
         insertConflictType = fst ins,
         existingTupleRowsForDelete =
           (if fst del = NO_CONFLICT then None
            else Some (tuplesAt T (case snd del of None \<Rightarrow> [] | Some a \<Rightarrow> [a]))),
         expectedTupleRowsForDelete = map_option (\<lambda>t. [t]) expected,
         existingTupleRowsForInsert =
           (if fst ins = NO_CONFLICT then None else Some (tuplesAt T (snd ins))),
         newTupleRowsForInsert = map_option (\<lambda>t. [t]) new\<rparr>)"

fun classify :: "persistent_table \<Rightarrow> dr_record \<Rightarrow> conflict_report option" where
  "classify T (InsertRecord new) =
     buildReport T DR_RECORD_INSERT (NO_CONFLICT, None) (insertSide T new None) None (Some new)"
| "classify T (DeleteRecord expected) =
     buildReport T DR_RECORD_DELETE (deleteSide T expected) (NO_CONFLICT, []) (Some expected) None"
| "classify T (UpdateRecord expected new) =
     (let del = deleteSide T expected
      in buildReport T DR_RECORD_UPDATE del (insertSide T new (snd del)) (Some expected) (Some new))"

text \<open>The conflict export: the row type of each exported row, and the tuple it carries.\<close>

datatype conflict_row_type = EXISTING_ROW | EXPECTED_ROW | NEW_ROW

definition carrierRows ::
    "conflict_row_type \<Rightarrow> table_tuple list option \<Rightarrow> (conflict_row_type \<times> table_tuple) list" where
  "carrierRows rowType carrier =
     (case carrier of None \<Rightarrow> [] | Some rows \<Rightarrow> map (\<lambda>t. (rowType, t)) rows)"

definition exportDRConflict :: "conflict_report \<Rightarrow> (conflict_row_type \<times> table_tuple) list" where
  "exportDRConflict r =
     carrierRows EXISTING_ROW (existingTupleRowsForDelete r) @
     carrierRows EXPECTED_ROW (expectedTupleRowsForDelete r) @
     carrierRows EXISTING_ROW (existingTupleRowsForInsert r) @
     carrierRows NEW_ROW (newTupleRowsForInsert r)"

definition rowCount :: "table_tuple list option \<Rightarrow> nat" where
  "rowCount carrier = (case carrier of None \<Rightarrow> 0 | Some rows \<Rightarrow> length rows)"

definition tuplesIncluded :: "conflict_report \<Rightarrow> nat" where
  "tuplesIncluded r =
     rowCount (existingTupleRowsForDelete r) + rowCount (expectedTupleRowsForDelete r) +
     rowCount (existingTupleRowsForInsert r) + rowCount (newTupleRowsForInsert r)"

section \<open>What a transaction leaves behind\<close>

text \<open>
  A table is consistent when every index holds, once each, the entries of the visible
  tuples and no other; when the visible tuples have different keys in every unique index;
  when the visible tuples have the columns that the schema counts; and when the primary key
  index is unique.
\<close>

definition indexConsistent :: "table_tuple list \<Rightarrow> table_index \<Rightarrow> bool" where
  "indexConsistent slots index =
     (distinct (entries index) \<and>
      set (entries index) =
        set (map (\<lambda>a. (keyOf index (slots ! a), a))
               (filter (\<lambda>a. isVisible (slots ! a)) [0..<length slots])))"

definition columnsAsCounted :: "tuple_schema \<Rightarrow> table_tuple \<Rightarrow> bool" where
  "columnsAsCounted sch t =
     (length (columns t) = columnCount sch \<and> length (hiddenColumns t) = hiddenColumnCount sch)"

definition tableConsistent :: "persistent_table \<Rightarrow> bool" where
  "tableConsistent T =
     (list_all (indexConsistent (m_data T)) (m_indexes T) \<and>
      list_all (\<lambda>index. if isUniqueIndex index
                         then distinct (map (keyOf index) (filter isVisible (m_data T)))
                         else True) (m_indexes T) \<and>
      list_all (columnsAsCounted (m_schema T)) (filter isVisible (m_data T)) \<and>
      (case primaryKeyIndex T of None \<Rightarrow> True | Some index \<Rightarrow> isUniqueIndex index))"

definition engineConsistent :: "engine \<Rightarrow> bool" where
  "engineConsistent E =
     (tableConsistent (table E) \<and>
      (case drStream E of None \<Rightarrow> True | Some stream \<Rightarrow> streamWellFormed stream))"

text \<open>
  What the undo of a transaction must bring back, and what it works from: the visible
  tuples; the tuples that the undo quantum pins, by address; the parts of the table that no
  operation changes; and what the DR stream shows.
\<close>

definition pinnedTuples ::
    "persistent_table \<Rightarrow> addr \<Rightarrow> (column_storage list \<times> column_storage list) option" where
  "pinnedTuples T a =
     (if a < length (m_data T) \<and> isActive (m_data T ! a) \<and> \<not> isPendingDelete (m_data T ! a) \<and>
         isPendingDeleteOnUndoRelease (m_data T ! a)
      then Some (tupleImage (m_data T ! a)) else None)"

definition tableShape ::
    "persistent_table \<Rightarrow>
     (tuple_schema \<times> table_index list \<times> nat option) \<times> (bool \<times> bool \<times> table_streamer option)" where
  "tableShape T =
     ((m_schema T, map (\<lambda>index. index\<lparr>entries := []\<rparr>) (m_indexes T), m_pkeyIndex T),
      (m_isMaterialized T, m_drEnabled T, m_tableStreamer T))"

definition observed ::
    "engine \<Rightarrow>
     ((column_storage list \<times> column_storage list) multiset \<times>
      (addr \<Rightarrow> (column_storage list \<times> column_storage list) option)) \<times>
     ((tuple_schema \<times> table_index list \<times> nat option) \<times> (bool \<times> bool \<times> table_streamer option)) \<times>
     ((bool \<times> nat \<times> int) \<times> (byte list \<times> (nat \<times> int) option \<times> nat) \<times>
      (nat \<times> int \<times> int \<times> int \<times> nat)) option" where
  "observed E =
     ((visibleTuples (table E), pinnedTuples (table E)), tableShape (table E),
      map_option streamView (drStream E))"

text \<open>
  The operations that the statements of a transaction can ask for: an insert of a tuple
  with the columns that the schema counts; a delete of a visible tuple; an update of a
  visible tuple by such a tuple, not flagged for deletion, that names each index to update
  once and names every index whose key changes.
\<close>

fun validOperation :: "persistent_table \<Rightarrow> table_operation \<Rightarrow> bool" where
  "validOperation T (InsertTuple source) = columnsAsCounted (m_schema T) source"
| "validOperation T (DeleteTuple target) =
     (target < length (m_data T) \<and> isVisible (m_data T ! target))"
| "validOperation T (UpdateTuple target source indexesToUpdate updateDRTimestamp) =
     (target < length (m_data T) \<and> isVisible (m_data T ! target) \<and>
      columnsAsCounted (m_schema T) source \<and>
      \<not> isPendingDelete source \<and> \<not> isPendingDeleteOnUndoRelease source \<and>
      distinct indexesToUpdate \<and>
      list_all (\<lambda>p. p < length (m_indexes T)) indexesToUpdate \<and>
      list_all (\<lambda>p. if checkForIndexChange (m_indexes T ! p) (m_data T ! target) source
                     then p \<in> set indexesToUpdate else True)
        [0..<length (m_indexes T)])"

fun validOperations :: "dr_codec \<Rightarrow> engine \<Rightarrow> table_operation list \<Rightarrow> bool" where
  "validOperations codec E [] = True"
| "validOperations codec E (operation # later) =
     (validOperation (table E) operation \<and>
      (if fst (runOperation codec E operation) = Returned
       then validOperations codec (snd (runOperation codec E operation)) later
       else True))"

text \<open>
  The key of a row in an index, from the columns of the row alone: \<open>keyOf\<close> on the tuple
  that holds the row.
\<close>

definition keyOfImage ::
    "table_index \<Rightarrow> column_storage list \<times> column_storage list \<Rightarrow> nvalue list" where
  "keyOfImage index row =
     map (\<lambda>i. if i < length (fst row) then getValue (fst row ! i) else NullValue)
       (getColumnIndices index)"

text \<open>
  The stream takes the records of the table: there is a stream, it is enabled, and the
  table is DR-enabled and not materialized (the guard of the three operations, and the test
  of \<open>m_enabled\<close> in the append).
\<close>

definition drEmits :: "engine \<Rightarrow> bool" where
  "drEmits E =
     (case drStream E of
        None \<Rightarrow> False
      | Some stream \<Rightarrow>
          m_enabled stream \<and> \<not> m_isMaterialized (table E) \<and> m_drEnabled (table E))"

text \<open>
  The stream with its transaction begun, and the stream after the record of an operation has
  been appended: the transaction begun if none was open, the cost of the record counted, and
  the bytes of the record at the end of the buffer.
\<close>

definition transactionBegun :: "dr_codec \<Rightarrow> int \<Rightarrow> dr_tuple_stream \<Rightarrow> dr_tuple_stream" where
  "transactionBegun codec uniqueId s =
     (if m_opened s then s
      else beginTransaction codec (m_committedSequenceNumber s + 1) uniqueId s)"

definition recordAppended ::
    "dr_codec \<Rightarrow> engine \<Rightarrow> DRRecordType \<Rightarrow> table_tuple list \<Rightarrow> dr_tuple_stream \<Rightarrow>
     dr_tuple_stream" where
  "recordAppended codec E type tuples s =
     (let s1 = transactionBegun codec (currentUniqueId E) s
      in s1\<lparr>m_txnRowCount := m_txnRowCount s1 + rowCostForDRRecord codec type,
            m_buffer := m_buffer s1 @
              rowRecord codec type tuples
                (fst (getUniqueIndexForDR (isActiveActiveDREnabled E) (crcFunctions codec)
                        (m_indexes (table E)) (m_drIndexCache (table E))))\<rparr>)"

text \<open>
  The record that an operation hands to the stream: its type and its tuples. An insert hands
  over the copy of the source in the table, with its DR timestamp; a delete the tuple to
  delete; an update the tuple before the update and the source with its DR timestamp.
\<close>

fun recordOf :: "engine \<Rightarrow> table_operation \<Rightarrow> DRRecordType \<times> table_tuple list" where
  "recordOf E (InsertTuple source) =
     (DR_RECORD_INSERT,
      [if hasDRTimestampColumn (table E)
       then setDRTimestampForTuple (currentDRTimestamp E)
              (fst (copyForPersistentInsert (nextObject E) source)) False
       else fst (copyForPersistentInsert (nextObject E) source)])"
| "recordOf E (DeleteTuple target) = (DR_RECORD_DELETE, [m_data (table E) ! target])"
| "recordOf E (UpdateTuple target source indexesToUpdate updateDRTimestamp) =
     (DR_RECORD_UPDATE,
      [m_data (table E) ! target,
       if hasDRTimestampColumn (table E) \<and> updateDRTimestamp
       then setDRTimestampForTuple (currentDRTimestamp E) source True else source])"

fun drMarkOf :: "undo_action \<Rightarrow> nat" where
  "drMarkOf (PersistentTableUndoInsertAction tuple drMark) = drMark"
| "drMarkOf (PersistentTableUndoDeleteAction tuple drMark) = drMark"
| "drMarkOf (PersistentTableUndoUpdateAction oldTuple newTuple revertIndexes drMark) = drMark"

text \<open>
  What a stream has published or will publish at the next flush whatever is appended or
  rolled back in the open transaction: the committed bytes, the committed and flushed
  offsets, and the committed sequence number and unique ids.
\<close>

definition published ::
    "dr_tuple_stream \<Rightarrow> byte list \<times> (nat \<times> nat) \<times> (int \<times> int \<times> int)" where
  "published s =
     (take (m_committedUso s) (m_buffer s), (m_committedUso s, m_flushedUso s),
      getLastCommittedSequenceNumberAndUniqueIds s)"

text \<open>
  The mark that an operation is given and the stream that it leaves when its append
  returns: the offset of the end of the buffer and the stream with the record, when the
  stream takes the records of the table; no mark and the stream as it was, when not.
\<close>

definition recorded ::
    "dr_codec \<Rightarrow> engine \<Rightarrow> DRRecordType \<times> table_tuple list \<Rightarrow> nat \<Rightarrow>
     dr_tuple_stream option \<Rightarrow> bool" where
  "recorded codec E drRecord drMark stream' =
     (if drEmits E
      then (case drStream E of
              None \<Rightarrow> False
            | Some s \<Rightarrow>
                drMark = length (m_buffer s) \<and>
                stream' = Some (recordAppended codec E (fst drRecord) (snd drRecord) s))
      else drMark = INVALID_DR_MARK \<and> stream' = drStream E)"

section \<open>Small tables for closed statements\<close>

text \<open>
  A schema of two inlined columns and one hidden column, and builders for rows, indexes and
  tables over it.
\<close>

definition exampleSchema :: tuple_schema where
  "exampleSchema = \<lparr>columnInlined = [True, True], hiddenColumnCount = 1\<rparr>"

definition exampleRow :: "int \<Rightarrow> int \<Rightarrow> int \<Rightarrow> table_tuple" where
  "exampleRow k v ts =
     \<lparr>isActive = True, isDirty = False, isPendingDelete = False,
      isPendingDeleteOnUndoRelease = False,
      columns = [Inlined (IntValue k), Inlined (IntValue v)],
      hiddenColumns = [Inlined (IntValue ts)]\<rparr>"

definition exampleIndex :: "string \<Rightarrow> bool \<Rightarrow> nat list \<Rightarrow> (nvalue list \<times> addr) list \<Rightarrow> table_index" where
  "exampleIndex name unique cols es =
     \<lparr>getName = name, isUniqueIndex = unique, isPartialIndex = False,
      keyTupleLength = of_nat (8 * length cols), keyUsesNonInlinedMemory = False,
      getColumnIndices = cols, entries = es\<rparr>"

definition exampleTable ::
    "table_tuple list \<Rightarrow> table_index list \<Rightarrow> nat option \<Rightarrow> persistent_table" where
  "exampleTable slots ixs pk =
     \<lparr>m_schema = exampleSchema, m_allowNulls = [False, True], m_data = slots,
      m_tupleCount = length (filter isActive slots), m_tupleLimit = 1000,
      m_tuplesPinnedByUndo = 0, m_invisibleTuplesPendingDeleteCount = 0,
      m_indexes = ixs, m_pkeyIndex = pk, m_isMaterialized = False, m_drEnabled = True,
      m_drIndexCache = freshCache, m_tableStreamer = None\<rparr>"

text \<open>
  A codec with one byte for each part of a record, in which an update costs two rows and the
  other records one; a stream with nothing written yet; an engine over a table and a stream
  with an empty undo quantum.
\<close>

definition exampleCodec :: dr_codec where
  "exampleCodec =
     \<lparr>beginRecordBody = (\<lambda>sequenceNumber uniqueId. [0]),
      endRecord = (\<lambda>sequenceNumber bytes. [255]),
      rowRecord = (\<lambda>type tuples uniqueIndex. [of_nat (length tuples)]),
      rowCostForDRRecord = (\<lambda>type. if type = DR_RECORD_UPDATE then 2 else 1),
      isMpUniqueId = (\<lambda>uniqueId. False),
      crcFunctions = placeholderCrc\<rparr>"

definition exampleStream :: "int \<Rightarrow> dr_tuple_stream" where
  "exampleStream rowTarget =
     \<lparr>m_enabled = True, m_secondaryCapacity = 1000, m_rowTarget = rowTarget,
      m_opened = False, m_txnRowCount = 0, m_buffer = [], m_beginTxnUso = 0,
      m_openSequenceNumber = 0, m_committedUso = 0, m_committedSequenceNumber = - 1,
      m_lastCommittedSpUniqueId = 0, m_lastCommittedMpUniqueId = 0, m_flushedUso = 0\<rparr>"

definition exampleEngine :: "persistent_table \<Rightarrow> dr_tuple_stream option \<Rightarrow> engine" where
  "exampleEngine T stream =
     \<lparr>table = T, drStream = stream, currentUndoQuantum = Some [], nextObject = 0,
      currentUniqueId = 7, currentDRTimestamp = 70, isActiveActiveDREnabled = False,
      NDEBUG = False\<rparr>"

section \<open>Unfolding the small tables\<close>

lemmas example_defs = exampleSchema_def exampleRow_def exampleIndex_def exampleTable_def

lemmas engine_defs = exampleCodec_def exampleStream_def exampleEngine_def

lemmas insert_defs =
  insertPersistentTuple_def insertTupleCommon_def nextFreeTuple_def
  copyForPersistentInsert_def visibleTupleCount_def checkNulls_def hasDRTimestampColumn_def
  setDRTimestampForTuple_def getHiddenNValue_def drAppend_def appendRecord_def
  beginTransaction_def split_beta Let_def setSlot_def streamerSays_def
  addEntry_def uniqueMatchingTuple_def keyOf_def getNValue_def columnCount_def
  DRRollback_def rollbackTo_def deleteTupleStorage_def deleteEntryIfPresent_def deleteEntry_def
  clearedSlot_def MAGIC_DR_TRANSACTION_PADDING_def INVALID_DR_MARK_def registerUndoAction_def

lemmas delete_defs =
  deleteTuple_def drAppend_def appendRecord_def beginTransaction_def split_beta Let_def
  setSlot_def deleteEntry_def keyOf_def getNValue_def registerUndoAction_def
  MAGIC_DR_TRANSACTION_PADDING_def INVALID_DR_MARK_def

section \<open>Theorems: wire format\<close>

text \<open>
  Claim C8. The DR wire-format record sizes are fixed constants: a begin record is 27 bytes,
  a begin header 18 bytes, an end record 13 bytes, a row record header 9 bytes, a hash
  delimiter 5 bytes, and the protocol version byte is 4.
\<close>

theorem dr_record_sizes:
  "BEGIN_RECORD_SIZE = 27 \<and> BEGIN_RECORD_HEADER_SIZE = 18 \<and> END_RECORD_SIZE = 13 \<and>
   TXN_RECORD_HEADER_SIZE = 9 \<and> HASH_DELIMITER_SIZE = 5 \<and> PROTOCOL_VERSION = 4"
  by (simp add: BEGIN_RECORD_SIZE_def BEGIN_RECORD_HEADER_SIZE_def END_RECORD_SIZE_def
      TXN_RECORD_HEADER_SIZE_def HASH_DELIMITER_SIZE_def PROTOCOL_VERSION_def)

section \<open>Theorems: truncateTable\<close>

lemma truncateTable_one_block:
  "truncateTable False [lf] views =
     (if lf \<le> 0.105666 then TupleByTupleDelete else TableSwap)"
  by (simp add: truncateTable_def tableLFCutoffForTrunc_def tableWithViewsLFCutoffForTrunc_def)

text \<open>
  Claim C4. On a non-empty table with one storage block and at least one view, the claim
  has the tuple-by-tuple delete chosen only up to a load factor of 0.015416. With one view
  and a load factor of 0.05 the function still deletes tuple by tuple: the views cut-off
  sits behind a disjunction whose first disjunct already covers it.
\<close>

theorem truncateTable_views_cutoff_ignored:
  "truncateTable False [0.05] 1 = TupleByTupleDelete \<and>
   \<not> (0.05 \<le> tableWithViewsLFCutoffForTrunc)"
  by (simp add: truncateTable_def tableLFCutoffForTrunc_def tableWithViewsLFCutoffForTrunc_def)

section \<open>Theorems: getUniqueIndexForDR\<close>


















section \<open>Theorems: lookupTuple\<close>

lemma scanForTuple_Some:
  "scanForTuple p a0 slots = Some a \<Longrightarrow>
   a0 \<le> a \<and> a - a0 < length slots \<and> isVisible (slots ! (a - a0)) \<and> p (slots ! (a - a0)) \<and>
   (\<forall>k < a - a0. \<not> (isVisible (slots ! k) \<and> p (slots ! k)))"
proof (induction slots arbitrary: a0)
  case Nil
  then show ?case by simp
next
  case (Cons t slots)
  show ?case
  proof (cases "isVisible t \<and> p t")
    case True
    with Cons.prems show ?thesis by simp
  next
    case False
    with Cons.prems have "scanForTuple p (Suc a0) slots = Some a" by simp
    from Cons.IH [OF this] have ih: "Suc a0 \<le> a" "a - Suc a0 < length slots"
      "isVisible (slots ! (a - Suc a0))" "p (slots ! (a - Suc a0))"
      "\<forall>k < a - Suc a0. \<not> (isVisible (slots ! k) \<and> p (slots ! k))" by auto
    from ih(1) have eq: "a - a0 = Suc (a - Suc a0)" by simp
    show ?thesis
      unfolding eq using ih False by (auto simp: less_Suc_eq_0_disj)
  qed
qed

lemma scanForTuple_None:
  "scanForTuple p a0 slots = None \<longleftrightarrow> (\<forall>t \<in> set slots. \<not> (isVisible t \<and> p t))"
  by (induction slots arbitrary: a0) auto






lemma memcmpEqual_whole:
  assumes "length (columns a) = n" "length (columns b) = n"
    "length (hiddenColumns a) = h" "length (hiddenColumns b) = h"
  shows "memcmpEqual a b (n + h) \<longleftrightarrow>
     map rawBytes (columns a) = map rawBytes (columns b) \<and>
     map rawBytes (hiddenColumns a) = map rawBytes (hiddenColumns b)"
proof -
  have "memcmpEqual a b (n + h) \<longleftrightarrow>
     map rawBytes (columns a) @ map rawBytes (hiddenColumns a) =
     map rawBytes (columns b) @ map rawBytes (hiddenColumns b)"
    using assms by (simp add: memcmpEqual_def tupleData_def)
  also have "\<dots> \<longleftrightarrow> map rawBytes (columns a) = map rawBytes (columns b) \<and>
     map rawBytes (hiddenColumns a) = map rawBytes (hiddenColumns b)"
    using assms by (intro append_eq_append_conv) simp
  finally show ?thesis .
qed


lemma scanForTuple_found:
  "scanForTuple p 0 slots = Some a \<Longrightarrow> a < length slots \<and> isVisible (slots ! a) \<and> p (slots ! a)"
  using scanForTuple_Some [of p 0 slots a] by simp

lemma scanForTuple_exists:
  "t \<in> set slots \<Longrightarrow> isVisible t \<Longrightarrow> p t \<Longrightarrow> scanForTuple p a0 slots \<noteq> None"
  by (auto simp: scanForTuple_None)




section \<open>Theorems: swapTuples\<close>



lemma keyOf_flags [simp]: "keyOf ix (t\<lparr>isActive := b\<rparr>) = keyOf ix t"
  by (simp add: keyOf_def getNValue_def)




section \<open>Theorems: conflict classification and export\<close>

lemma length_carrierRows [simp]: "length (carrierRows ty c) = rowCount c"
  by (simp add: carrierRows_def rowCount_def split: option.splits)

lemma export_count: "length (exportDRConflict r) = tuplesIncluded r"
  by (simp add: exportDRConflict_def tuplesIncluded_def)

lemma deleteSide_types:
  "fst (deleteSide T expected) \<in> {NO_CONFLICT, CONFLICT_EXPECTED_ROW_MISSING, CONFLICT_EXPECTED_ROW_MISMATCH}"
  by (simp add: deleteSide_def split: option.splits)

lemma insertSide_types:
  "fst (insertSide T new replaced) \<in> {NO_CONFLICT, CONFLICT_CONSTRAINT_VIOLATION}"
  by (simp add: insertSide_def Let_def)

lemma buildReport_props:
  assumes "buildReport T action del ins expected new = Some r"
    and "expected \<noteq> None \<or> new \<noteq> None"
  shows "deleteConflictType r = fst del \<and> insertConflictType r = fst ins \<and>
         actionType r = action \<and> 1 \<le> tuplesIncluded r"
  using assms
  by (auto simp: buildReport_def tuplesIncluded_def rowCount_def split: if_splits)

text \<open>
  Claim C5, as amended. Every report of the sink for a record carries one delete-side
  conflict type (none, expected row missing, expected row mismatch) and one insert-side
  conflict type (none, constraint violation), not both none; and the conflict export writes
  exactly one row for each tuple that the report includes, at least one.
\<close>

theorem classify_report:
  assumes "classify T drRecord = Some r"
  shows "deleteConflictType r \<in>
           {NO_CONFLICT, CONFLICT_EXPECTED_ROW_MISSING, CONFLICT_EXPECTED_ROW_MISMATCH} \<and>
         insertConflictType r \<in> {NO_CONFLICT, CONFLICT_CONSTRAINT_VIOLATION} \<and>
         (deleteConflictType r \<noteq> NO_CONFLICT \<or> insertConflictType r \<noteq> NO_CONFLICT) \<and>
         length (exportDRConflict r) = tuplesIncluded r \<and>
         1 \<le> length (exportDRConflict r)"
proof (cases drRecord)
  case (InsertRecord new)
  with assms have b: "buildReport T DR_RECORD_INSERT (NO_CONFLICT, None) (insertSide T new None)
      None (Some new) = Some r" by simp
  from buildReport_props [OF b] insertSide_types [of T new None] b
  show ?thesis by (auto simp: export_count buildReport_def split: if_splits)
next
  case (DeleteRecord expected)
  with assms have b: "buildReport T DR_RECORD_DELETE (deleteSide T expected) (NO_CONFLICT, [])
      (Some expected) None = Some r" by simp
  from buildReport_props [OF b] deleteSide_types [of T expected] b
  show ?thesis by (auto simp: export_count buildReport_def split: if_splits)
next
  case (UpdateRecord expected new)
  with assms have b: "buildReport T DR_RECORD_UPDATE (deleteSide T expected)
      (insertSide T new (snd (deleteSide T expected))) (Some expected) (Some new) = Some r"
    by (simp add: Let_def)
  from buildReport_props [OF b] deleteSide_types [of T expected]
    insertSide_types [of T new "snd (deleteSide T expected)"] b
  show ?thesis by (auto simp: export_count buildReport_def split: if_splits)
qed

text \<open>
  The sixth scenario of the spec: an update whose expected row has another timestamp locally
  and whose new row collides with a third row. Four tuples, four export rows.
\<close>

theorem classify_report_witness:
  "\<exists>r. classify
         (exampleTable [exampleRow 42 12345 71, exampleRow 24 2321 70, exampleRow 72 345 71]
            [exampleIndex ''pk'' True [0]
               [([IntValue 42], 0), ([IntValue 24], 1), ([IntValue 72], 2)],
             exampleIndex ''uk'' True [1]
               [([IntValue 12345], 0), ([IntValue 2321], 1), ([IntValue 345], 2)]] (Some 0))
         (UpdateRecord (exampleRow 42 55555 70) (exampleRow 42 345 72)) = Some r \<and>
       deleteConflictType r = CONFLICT_EXPECTED_ROW_MISMATCH \<and>
       insertConflictType r = CONFLICT_CONSTRAINT_VIOLATION \<and>
       tuplesIncluded r = 4 \<and> length (exportDRConflict r) = 4"
proof -
  let ?T = "exampleTable [exampleRow 42 12345 71, exampleRow 24 2321 70, exampleRow 72 345 71]
            [exampleIndex ''pk'' True [0]
               [([IntValue 42], 0), ([IntValue 24], 1), ([IntValue 72], 2)],
             exampleIndex ''uk'' True [1]
               [([IntValue 12345], 0), ([IntValue 2321], 1), ([IntValue 345], 2)]] (Some 0)"
  let ?u = "UpdateRecord (exampleRow 42 55555 70) (exampleRow 42 345 72)"
  have d: "deleteSide ?T (exampleRow 42 55555 70) = (CONFLICT_EXPECTED_ROW_MISMATCH, Some 0)"
    by (simp add: deleteSide_def lookupTuple_def primaryKeyIndex_def uniqueMatchingTuple_def
        keyOf_def getNValue_def getDRTimestamp_def example_defs)
  have i: "insertSide ?T (exampleRow 42 345 72) (Some 0) = (CONFLICT_CONSTRAINT_VIOLATION, [2])"
    by (simp add: insertSide_def uniqueMatchingTuple_def keyOf_def getNValue_def example_defs)
  have c: "classify ?T ?u =
      buildReport ?T DR_RECORD_UPDATE (CONFLICT_EXPECTED_ROW_MISMATCH, Some 0)
        (CONFLICT_CONSTRAINT_VIOLATION, [2]) (Some (exampleRow 42 55555 70))
        (Some (exampleRow 42 345 72))"
    by (simp only: classify.simps Let_def d snd_conv i)
  then obtain r where r: "classify ?T ?u = Some r"
    by (simp add: buildReport_def)
  from r c have "deleteConflictType r = CONFLICT_EXPECTED_ROW_MISMATCH"
    "insertConflictType r = CONFLICT_CONSTRAINT_VIOLATION" "tuplesIncluded r = 4"
    by (auto simp: buildReport_def tuplesIncluded_def rowCount_def tuplesAt_def exampleTable_def)
  with classify_report [OF r] r show ?thesis by auto
qed

text \<open>
  The claim as stated counts one row more than the tuples included. In the fifth scenario of
  the spec (delete of a row that is missing locally) the report includes one tuple, the
  expected row, and the export writes one row, not two.
\<close>

theorem conflict_export_rows_counterexample:
  "classify (exampleTable [] [exampleIndex ''pk'' True [0] [], exampleIndex ''uk'' True [1] []] (Some 0))
     (DeleteRecord (exampleRow 42 55555 70)) =
   Some \<lparr>actionType = DR_RECORD_DELETE,
         deleteConflictType = CONFLICT_EXPECTED_ROW_MISSING,
         insertConflictType = NO_CONFLICT,
         existingTupleRowsForDelete = Some [],
         expectedTupleRowsForDelete = Some [exampleRow 42 55555 70],
         existingTupleRowsForInsert = None,
         newTupleRowsForInsert = None\<rparr> \<and>
   tuplesIncluded \<lparr>actionType = DR_RECORD_DELETE,
         deleteConflictType = CONFLICT_EXPECTED_ROW_MISSING,
         insertConflictType = NO_CONFLICT,
         existingTupleRowsForDelete = Some [],
         expectedTupleRowsForDelete = Some [exampleRow 42 55555 70],
         existingTupleRowsForInsert = None,
         newTupleRowsForInsert = None\<rparr> = 1 \<and>
   length (exportDRConflict \<lparr>actionType = DR_RECORD_DELETE,
         deleteConflictType = CONFLICT_EXPECTED_ROW_MISSING,
         insertConflictType = NO_CONFLICT,
         existingTupleRowsForDelete = Some [],
         expectedTupleRowsForDelete = Some [exampleRow 42 55555 70],
         existingTupleRowsForInsert = None,
         newTupleRowsForInsert = None\<rparr>) = 1"
  by (simp add: deleteSide_def lookupTuple_def primaryKeyIndex_def uniqueMatchingTuple_def
      keyOf_def getNValue_def buildReport_def tuplesAt_def tuplesIncluded_def rowCount_def
      exportDRConflict_def carrierRows_def example_defs)

section \<open>Theorems: index maintenance and the DR stream\<close>

lemma keyOf_entries [simp]: "keyOf (ix\<lparr>entries := es\<rparr>) t = keyOf ix t"
  by (simp add: keyOf_def)

lemma addEntry_Inl:
  "addEntry ix t a = Inl c \<longleftrightarrow> isUniqueIndex ix \<and> uniqueMatchingTuple ix t = Some c"
  by (auto simp: addEntry_def split: option.splits if_splits)

lemma addEntry_Inr:
  "addEntry ix t a = Inr ix' \<longleftrightarrow>
     (isUniqueIndex ix \<longrightarrow> uniqueMatchingTuple ix t = None) \<and>
     ix' = ix\<lparr>entries := entries ix @ [(keyOf ix t, a)]\<rparr>"
  by (auto simp: addEntry_def split: option.splits if_splits)

lemma deleteEntryIfPresent_added:
  "a \<notin> snd ` set (entries ix) \<Longrightarrow>
   deleteEntryIfPresent t a (ix\<lparr>entries := entries ix @ [(keyOf ix t, a)]\<rparr>) = ix"
proof -
  assume "a \<notin> snd ` set (entries ix)"
  then have "(keyOf ix t, a) \<notin> set (entries ix)" by force
  then show ?thesis
    by (simp add: deleteEntryIfPresent_def deleteEntry_def remove1_append remove1_idem)
qed

lemma tryInsertOnAllIndexes_conflict:
  assumes "i < length rest"
    and "\<forall>j<i. isUniqueIndex (rest ! j) \<longrightarrow> uniqueMatchingTuple (rest ! j) t = None"
    and "isUniqueIndex (rest ! i)" "uniqueMatchingTuple (rest ! i) t = Some c"
    and "\<forall>ix \<in> set orig \<union> set rest. a \<notin> snd ` set (entries ix)"
  shows "tryInsertOnAllIndexes
           (map (\<lambda>ix. ix\<lparr>entries := entries ix @ [(keyOf ix t, a)]\<rparr>) orig) rest t a =
         (Some c, orig @ rest)"
  using assms
proof (induction rest arbitrary: i orig)
  case Nil
  then show ?case by simp
next
  case (Cons index rest)
  show ?case
  proof (cases i)
    case 0
    with Cons.prems have "addEntry index t a = Inl c"
      by (simp add: addEntry_Inl)
    moreover have "map (deleteEntryIfPresent t a)
        (map (\<lambda>ix. ix\<lparr>entries := entries ix @ [(keyOf ix t, a)]\<rparr>) orig) = orig"
      using Cons.prems(5) by (simp add: map_idI deleteEntryIfPresent_added)
    ultimately show ?thesis by simp
  next
    case (Suc k)
    with Cons.prems have none: "isUniqueIndex index \<longrightarrow> uniqueMatchingTuple index t = None"
      by auto
    then have add: "addEntry index t a = Inr (index\<lparr>entries := entries index @ [(keyOf index t, a)]\<rparr>)"
      by (simp add: addEntry_Inr)
    have "tryInsertOnAllIndexes
           (map (\<lambda>ix. ix\<lparr>entries := entries ix @ [(keyOf ix t, a)]\<rparr>) (orig @ [index])) rest t a =
         (Some c, (orig @ [index]) @ rest)"
    proof (rule Cons.IH [of k])
      show "k < length rest" using Cons.prems(1) Suc by simp
      show "\<forall>j<k. isUniqueIndex (rest ! j) \<longrightarrow> uniqueMatchingTuple (rest ! j) t = None"
        using Cons.prems(2) Suc by auto
      show "isUniqueIndex (rest ! k)" using Cons.prems(3) Suc by simp
      show "uniqueMatchingTuple (rest ! k) t = Some c" using Cons.prems(4) Suc by simp
      show "\<forall>ix\<in>set (orig @ [index]) \<union> set rest. a \<notin> snd ` set (entries ix)"
        using Cons.prems(5) by auto
    qed
    then show ?thesis using add by simp
  qed
qed

lemma appendRecord_cases:
  assumes "appendRecord codec u ty row s = (out, mark, s')"
  shows "(out = Returned \<and> \<not> m_enabled s \<and> mark = INVALID_DR_MARK \<and> s' = s) \<or>
         (out = TupleStreamException \<and> m_enabled s \<and> mark = INVALID_DR_MARK \<and>
          s' = (if m_opened s then s
                else beginTransaction codec (m_committedSequenceNumber s + 1) u s)) \<or>
         (out = Returned \<and> m_enabled s \<and> mark = length (m_buffer s))"
  using assms by (auto simp: appendRecord_def Let_def split: if_splits)

lemma appendRecord_outcome:
  "fst (appendRecord codec u ty row s) = Returned \<or>
   fst (appendRecord codec u ty row s) = TupleStreamException"
  by (simp add: appendRecord_def Let_def)

lemma appendRecord_wellFormed:
  assumes "streamWellFormed s" "appendRecord codec u ty row s = (Returned, mark, s')"
  shows "streamWellFormed s'"
proof (cases "m_enabled s")
  case False
  then have "s' = s"
    using assms(2) by (auto simp: appendRecord_def Let_def split: if_splits)
  then show ?thesis using assms(1) by simp
next
  case True
  show ?thesis
  proof (cases "m_opened s")
    case opened: True
    then show ?thesis
      using assms True
      by (auto simp: appendRecord_def Let_def streamWellFormed_def split: if_splits)
  next
    case False
    then show ?thesis
      using assms True
      by (auto simp: appendRecord_def Let_def streamWellFormed_def beginTransaction_def
               split: if_splits)
  qed
qed

lemma rollbackTo_appendRecord:
  assumes wf: "streamWellFormed s"
    and app: "appendRecord codec u ty row s = (Returned, mark, s')"
    and view: "streamView sF = streamView s'"
  shows "streamView (rollbackTo mark (rowCostForDRRecord codec ty) sF) = streamView s"
proof (cases "m_enabled s")
  case False
  then have "mark = INVALID_DR_MARK" "s' = s"
    using app by (auto simp: appendRecord_def)
  then show ?thesis using view by (simp add: rollbackTo_def)
next
  case en: True
  have mark: "mark = length (m_buffer s)"
    using app en by (auto simp: appendRecord_def Let_def split: if_splits)
  show ?thesis
  proof (cases "m_opened s")
    case True
    then have valid: "mark \<noteq> INVALID_DR_MARK"
      using wf mark by (auto simp: streamWellFormed_def)
    from True show ?thesis
      using wf app en view valid
      by (auto simp: appendRecord_def Let_def streamWellFormed_def streamView_def rollbackTo_def
               split: if_splits)
  next
    case False
    then have valid: "mark \<noteq> INVALID_DR_MARK"
      using wf mark by (auto simp: streamWellFormed_def)
    from False show ?thesis
      using wf app en view valid
      by (auto simp: appendRecord_def Let_def streamWellFormed_def streamView_def rollbackTo_def
               beginTransaction_def split: if_splits)
  qed
qed

lemma drAppend_cases:
  assumes "drAppend codec E should ty ts = (out, mark, E1)"
  shows "(out = Returned \<and> mark = INVALID_DR_MARK \<and> E1 = E) \<or>
         (\<exists>s s' row cache. drStream E = Some s \<and>
            \<not> m_isMaterialized (table E) \<and> m_drEnabled (table E) \<and>
            appendRecord codec (currentUniqueId E) ty row s = (out, mark, s') \<and>
            E1 = E\<lparr>table := (table E)\<lparr>m_drIndexCache := cache\<rparr>, drStream := Some s'\<rparr>)"
  using assms
  by (auto simp: drAppend_def split: option.splits if_splits prod.splits)

lemma drAppend_engine:
  assumes "drAppend codec E should ty ts = (out, mark, E1)"
  shows "\<exists>cache str. E1 = E\<lparr>table := (table E)\<lparr>m_drIndexCache := cache\<rparr>, drStream := str\<rparr>"
  using drAppend_cases [OF assms]
proof (elim disjE exE conjE)
  assume "E1 = E"
  then have "E1 = E\<lparr>table := (table E)\<lparr>m_drIndexCache := m_drIndexCache (table E)\<rparr>,
                     drStream := drStream E\<rparr>" by simp
  then show ?thesis by blast
next
  fix s s' row cache
  assume "E1 = E\<lparr>table := (table E)\<lparr>m_drIndexCache := cache\<rparr>, drStream := Some s'\<rparr>"
  then show ?thesis by blast
qed

lemma drAppend_outcome:
  assumes "drAppend codec E should ty ts = (out, mark, E1)"
  shows "out = Returned \<or> out = TupleStreamException"
proof -
  have "fst (appendRecord codec u ty row s) = out'" if "appendRecord codec u ty row s = (out', m, s')"
    for u row s out' m s'
    using that by simp
  then show ?thesis
    using drAppend_cases [OF assms] appendRecord_outcome by blast
qed

lemma DRRollback_fields [simp]:
  "table (DRRollback F mark cost) = table F"
  "currentUndoQuantum (DRRollback F mark cost) = currentUndoQuantum F"
  "nextObject (DRRollback F mark cost) = nextObject F"
  "currentUniqueId (DRRollback F mark cost) = currentUniqueId F"
  "currentDRTimestamp (DRRollback F mark cost) = currentDRTimestamp F"
  "isActiveActiveDREnabled (DRRollback F mark cost) = isActiveActiveDREnabled F"
  "NDEBUG (DRRollback F mark cost) = NDEBUG F"
  by (simp_all add: DRRollback_def)

lemma rollbackTo_invalid [simp]: "rollbackTo INVALID_DR_MARK cost s = s"
  by (simp add: rollbackTo_def)

lemma DRRollback_drAppend:
  assumes app: "drAppend codec E should ty ts = (Returned, mark, E1)"
    and wf: "\<forall>s. drStream E = Some s \<longrightarrow> streamWellFormed s"
    and view: "map_option streamView (drStream F) = map_option streamView (drStream E1)"
    and flags: "m_isMaterialized (table F) = m_isMaterialized (table E)"
               "m_drEnabled (table F) = m_drEnabled (table E)"
  shows "map_option streamView (drStream (DRRollback F mark (rowCostForDRRecord codec ty))) =
         map_option streamView (drStream E)"
  using drAppend_cases [OF app]
proof (elim disjE exE conjE)
  assume "mark = INVALID_DR_MARK" "E1 = E"
  then show ?thesis
    using view by (cases "drStream F") (auto simp: DRRollback_def)
next
  fix s s' row cache
  assume s: "drStream E = Some s"
    and guard: "\<not> m_isMaterialized (table E)" "m_drEnabled (table E)"
    and rec: "appendRecord codec (currentUniqueId E) ty row s = (Returned, mark, s')"
    and E1: "E1 = E\<lparr>table := (table E)\<lparr>m_drIndexCache := cache\<rparr>, drStream := Some s'\<rparr>"
  from view E1 obtain sF where sF: "drStream F = Some sF" "streamView sF = streamView s'"
    by (cases "drStream F") auto
  have "streamView (rollbackTo mark (rowCostForDRRecord codec ty) sF) = streamView s"
    using rollbackTo_appendRecord [OF _ rec sF(2)] wf s by simp
  then show ?thesis
    using sF s guard flags by (simp add: DRRollback_def)
qed

lemma copyObjects_values: "map getValue (fst (copyObjects n cs)) = map getValue cs"
  by (induction n cs rule: copyObjects.induct) (auto split: prod.splits)

lemma keyOf_cong:
  assumes "map getValue (columns t) = map getValue (columns t')"
  shows "keyOf ix t = keyOf ix t'"
proof -
  have len: "length (columns t) = length (columns t')"
    using assms by (metis length_map)
  have "getNValue t i = getNValue t' i" for i
  proof (cases "i < length (columns t)")
    case True
    then have "map getValue (columns t) ! i = map getValue (columns t') ! i"
      using assms by simp
    then show ?thesis using True len by (simp add: getNValue_def)
  next
    case False
    then show ?thesis using len by (simp add: getNValue_def)
  qed
  then show ?thesis by (simp add: keyOf_def)
qed

lemma uniqueMatchingTuple_cong:
  "map getValue (columns t) = map getValue (columns t') \<Longrightarrow>
   uniqueMatchingTuple ix t = uniqueMatchingTuple ix t'"
  using keyOf_cong [of t t' ix] by (simp add: uniqueMatchingTuple_def)

lemma firstFreeSlot_le: "firstFreeSlot d n \<le> n + length d"
proof (induction d arbitrary: n)
  case Nil
  then show ?case by simp
next
  case (Cons t d)
  show ?case using Cons.IH [of "Suc n"] by simp
qed

lemma firstFreeSlot_free:
  "firstFreeSlot d n < n + length d \<Longrightarrow> \<not> isActive (d ! (firstFreeSlot d n - n))"
proof (induction d arbitrary: n)
  case Nil
  then show ?case by simp
next
  case (Cons t d)
  show ?case
  proof (cases "isActive t")
    case False
    then show ?thesis by simp
  next
    case True
    have ge: "Suc n \<le> firstFreeSlot d (Suc n)"
      by (induction d arbitrary: n) (auto simp: Suc_leD)
    from True Cons.prems have "firstFreeSlot d (Suc n) < Suc n + length d" by simp
    from Cons.IH [OF this] have "\<not> isActive (d ! (firstFreeSlot d (Suc n) - Suc n))" .
    moreover have "firstFreeSlot d (Suc n) - n = Suc (firstFreeSlot d (Suc n) - Suc n)"
      using ge by simp
    ultimately show ?thesis using True by simp
  qed
qed


lemma setDRTimestampForTuple_columns [simp]:
  "columns (setDRTimestampForTuple ts t b) = columns t"
  by (simp add: setDRTimestampForTuple_def)

lemma insertTupleCommon_conflict:
  assumes run: "insertTupleCommon codec E a fallible should = (out, E')"
    and reached: "out \<noteq> ConstraintFailureException CONSTRAINT_TYPE_NOT_NULL None"
                 "out \<noteq> TupleStreamException"
    and a: "a < length (m_data (table E))"
    and i: "i < length (m_indexes (table E))"
    and before: "\<forall>j<i. isUniqueIndex (m_indexes (table E) ! j) \<longrightarrow>
                   uniqueMatchingTuple (m_indexes (table E) ! j) (m_data (table E) ! a) = None"
    and at: "isUniqueIndex (m_indexes (table E) ! i)"
            "uniqueMatchingTuple (m_indexes (table E) ! i) (m_data (table E) ! a) = Some c"
    and free: "\<forall>ix \<in> set (m_indexes (table E)). a \<notin> snd ` set (entries ix)"
    and wf: "\<forall>s. drStream E = Some s \<longrightarrow> streamWellFormed s"
  shows "out = ConstraintFailureException CONSTRAINT_TYPE_UNIQUE (Some c) \<and>
         (\<exists>t cache str.
            E' = E\<lparr>table := (table E)\<lparr>m_data := (m_data (table E))[a := t],
                                       m_drIndexCache := cache\<rparr>,
                    drStream := str\<rparr> \<and>
            map_option streamView str = map_option streamView (drStream E))"
proof -
  define E1 where "E1 = (if hasDRTimestampColumn (table E)
                  then E\<lparr>table := setSlot (table E) a
                         (setDRTimestampForTuple (currentDRTimestamp E)
                            (m_data (table E) ! a) False)\<rparr>
                  else E)"
  obtain t1 where t1: "E1 = E\<lparr>table := (table E)\<lparr>m_data := (m_data (table E))[a := t1]\<rparr>\<rparr>"
      and c1: "columns t1 = columns (m_data (table E) ! a)"
  proof (cases "hasDRTimestampColumn (table E)")
    case True
    show ?thesis
      by (rule that [of "setDRTimestampForTuple (currentDRTimestamp E) (m_data (table E) ! a) False"])
         (simp_all add: E1_def True setSlot_def)
  next
    case False
    show ?thesis
      by (rule that [of "m_data (table E) ! a"]) (simp_all add: E1_def False)
  qed
  obtain o1 mark E2 where app: "drAppend codec E1 should DR_RECORD_INSERT [m_data (table E1) ! a] = (o1, mark, E2)"
    by (metis prod_cases3)
  have nonull: "\<not> (fallible \<and> \<not> checkNulls (table E) (m_data (table E) ! a))"
  proof
    assume "fallible \<and> \<not> checkNulls (table E) (m_data (table E) ! a)"
    then have "insertTupleCommon codec E a fallible should =
        (ConstraintFailureException CONSTRAINT_TYPE_NOT_NULL None, E)"
      by (simp add: insertTupleCommon_def)
    then show False using run reached(1) by simp
  qed
  have o1: "o1 = Returned"
  proof (rule ccontr)
    assume "o1 \<noteq> Returned"
    then have "out = o1"
      using run nonull app by (simp add: insertTupleCommon_def E1_def [symmetric] Let_def)
    then show False
      using drAppend_outcome [OF app] \<open>o1 \<noteq> Returned\<close> reached(2) by simp
  qed
  obtain cache str where
    E2: "E2 = E1\<lparr>table := (table E1)\<lparr>m_drIndexCache := cache\<rparr>, drStream := str\<rparr>"
    using drAppend_engine [OF app] by blast
  define t where "t = (m_data (table E2) ! a)
                           \<lparr>isActive := True, isPendingDelete := False,
                            isPendingDeleteOnUndoRelease := False\<rparr>"
  define t' where "t' = (if streamerSays (table E2) notifyTupleInsert a then t
                           else t\<lparr>isDirty := False\<rparr>)"
  define T3 where "T3 = setSlot (table E2) a t'"
  have cols: "columns t' = columns (m_data (table E) ! a)"
    using a by (simp add: t'_def t_def E2 t1 c1)
  have ixs: "m_indexes T3 = m_indexes (table E)"
    by (simp add: T3_def setSlot_def E2 t1)
  have same: "uniqueMatchingTuple ix t' = uniqueMatchingTuple ix (m_data (table E) ! a)" for ix
    by (rule uniqueMatchingTuple_cong) (simp add: cols)
  have tryI: "tryInsertOnAllIndexes
           (map (\<lambda>ix. ix\<lparr>entries := entries ix @ [(keyOf ix t', a)]\<rparr>) []) (m_indexes T3) t' a =
         (Some c, [] @ m_indexes T3)"
    by (rule tryInsertOnAllIndexes_conflict [where i = i])
       (use i before at free in \<open>simp_all add: ixs same\<close>)
  have res: "insertTupleCommon codec E a fallible should =
      (ConstraintFailureException CONSTRAINT_TYPE_UNIQUE (Some c),
       DRRollback (E2\<lparr>table := T3\<lparr>m_indexes := m_indexes T3\<rparr>\<rparr>) mark
         (rowCostForDRRecord codec DR_RECORD_INSERT))"
  proof (cases "streamerSays (table E2) notifyTupleInsert a")
    case True
    then show ?thesis
      using nonull app o1 tryI
      by (simp add: insertTupleCommon_def E1_def Let_def t_def t'_def T3_def)
  next
    case False
    then show ?thesis
      using nonull app o1 tryI
      by (simp add: insertTupleCommon_def E1_def Let_def t_def t'_def T3_def)
  qed
  have out: "out = ConstraintFailureException CONSTRAINT_TYPE_UNIQUE (Some c)"
    and E': "E' = DRRollback (E2\<lparr>table := T3\<rparr>) mark (rowCostForDRRecord codec DR_RECORD_INSERT)"
    using run res by simp_all
  have "map_option streamView (drStream E') = map_option streamView (drStream E1)"
    unfolding E'
    by (rule DRRollback_drAppend [OF app [unfolded o1]])
       (use wf in \<open>simp_all add: T3_def setSlot_def E2 t1\<close>)
  then have view: "map_option streamView (drStream E') = map_option streamView (drStream E)"
    by (simp add: t1)
  have eng: "E' = E\<lparr>table := (table E)\<lparr>m_data := (m_data (table E))[a := t'],
                                       m_drIndexCache := cache\<rparr>,
                    drStream := drStream E'\<rparr>"
    unfolding E' by (simp add: DRRollback_def T3_def setSlot_def E2 t1)
  from out view eng show ?thesis by blast
qed


lemma filter_update_hidden:
  "a < length d \<Longrightarrow> \<not> P (d ! a) \<Longrightarrow> \<not> P t \<Longrightarrow> filter P (d[a := t]) = filter P d"
proof (induction d arbitrary: a)
  case Nil
  then show ?case by simp
next
  case (Cons x d)
  then show ?case by (cases a) auto
qed

lemma isVisible_inactive [simp]: "\<not> isActive t \<Longrightarrow> \<not> isVisible t"
  by (simp add: isVisible_def)

lemma insertPersistentTuple_unfold:
  assumes "\<not> (fallible \<and> m_tupleLimit (table E) \<le> visibleTupleCount (table E))"
    and "nextFreeTuple (table E) = (a, T1)"
    and "copyForPersistentInsert (nextObject E) source = (stored, next)"
    and "insertTupleCommon codec (E\<lparr>table := setSlot T1 a stored, nextObject := next\<rparr>) a
           fallible True = (o1, Ec)"
  shows "insertPersistentTuple codec E source fallible =
         (o1, if o1 = Returned \<or> o1 = FatalException \<or> o1 = AssertionFailed then Ec
              else Ec\<lparr>table := deleteTupleStorage (table Ec) a\<rparr>)"
  unfolding insertPersistentTuple_def if_not_P [OF assms(1)] assms(2,3,4) prod.case
  by (cases o1) simp_all

lemma nextFreeTuple_result:
  "nextFreeTuple T =
     (firstFreeSlot (m_data T) 0,
      T\<lparr>m_data := (if firstFreeSlot (m_data T) 0 < length (m_data T) then m_data T
                    else m_data T @ [clearedSlot]),
        m_tupleCount := m_tupleCount T + 1\<rparr>)"
  by (simp add: nextFreeTuple_def Let_def)

lemma nextFreeTuple_slot:
  assumes "nextFreeTuple T = (a, T1)"
  shows "a < length (m_data T1)" "\<not> isActive (m_data T1 ! a)"
        "filter isVisible (m_data T1) = filter isVisible (m_data T)"
        "a = firstFreeSlot (m_data T) 0"
proof -
  have a: "a = firstFreeSlot (m_data T) 0"
    and T1: "T1 = T\<lparr>m_data := (if a < length (m_data T) then m_data T
                                 else m_data T @ [clearedSlot]),
                     m_tupleCount := m_tupleCount T + 1\<rparr>"
    using assms by (auto simp: nextFreeTuple_result)
  have le: "a \<le> length (m_data T)"
    using firstFreeSlot_le [of "m_data T" 0] a by simp
  show "a < length (m_data T1)" using le by (simp add: T1)
  show "\<not> isActive (m_data T1 ! a)"
  proof (cases "a < length (m_data T)")
    case True
    then show ?thesis
      using firstFreeSlot_free [of "m_data T" 0] a by (simp add: T1)
  next
    case False
    then have "a = length (m_data T)" using le by simp
    then show ?thesis by (simp add: T1 clearedSlot_def)
  qed
  show "filter isVisible (m_data T1) = filter isVisible (m_data T)"
    by (simp add: T1 clearedSlot_def)
  show "a = firstFreeSlot (m_data T) 0" by (rule a)
qed

lemma copyForPersistentInsert_values:
  assumes "copyForPersistentInsert next source = (stored, next')"
  shows "map getValue (columns stored) = map getValue (columns source)"
    and "hiddenColumns stored = hiddenColumns source"
  using assms copyObjects_values [of "next" "columns source"]
  by (auto simp: copyForPersistentInsert_def split: prod.splits)

section \<open>Theorems: an insert that conflicts with a unique index\<close>

text \<open>
  Claim C3. Take an insert that gets as far as the indexes (it fails neither for the row
  limit, nor for a null, nor for the buffer of the DR stream), into a table none of whose
  indexes holds an entry for the slot that the insert is given, with a well-formed DR stream.
  If index \<open>i\<close> is the first unique index that holds the key of the new tuple, for the tuple
  \<open>conflict\<close>, then the insert fails with the unique-constraint error that carries
  \<open>conflict\<close>; the indexes are as before the insert, those before \<open>i\<close> having lost the entry
  they were given; the DR stream shows what it showed before the insert, its buffer
  included; no undo action is registered, and the table has the visible tuples it had.
\<close>

theorem insertPersistentTuple_unique_conflict:
  assumes run: "insertPersistentTuple codec E source fallible = (out, E')"
    and reached: "out \<noteq> ConstraintFailureException CONSTRAINT_TYPE_ROW_LIMIT None"
                 "out \<noteq> ConstraintFailureException CONSTRAINT_TYPE_NOT_NULL None"
                 "out \<noteq> TupleStreamException"
    and i: "i < length (m_indexes (table E))"
    and before: "\<forall>j<i. isUniqueIndex (m_indexes (table E) ! j) \<longrightarrow>
                   uniqueMatchingTuple (m_indexes (table E) ! j) source = None"
    and at: "isUniqueIndex (m_indexes (table E) ! i)"
            "uniqueMatchingTuple (m_indexes (table E) ! i) source = Some conflict"
    and free: "\<forall>index \<in> set (m_indexes (table E)).
                 firstFreeSlot (m_data (table E)) 0 \<notin> snd ` set (entries index)"
    and wf: "\<forall>stream. drStream E = Some stream \<longrightarrow> streamWellFormed stream"
  shows "out = ConstraintFailureException CONSTRAINT_TYPE_UNIQUE (Some conflict) \<and>
         m_indexes (table E') = m_indexes (table E) \<and>
         map_option streamView (drStream E') = map_option streamView (drStream E) \<and>
         currentUndoQuantum E' = currentUndoQuantum E \<and>
         visibleTuples (table E') = visibleTuples (table E)"
proof -
  obtain a T1 where nf: "nextFreeTuple (table E) = (a, T1)"
    by (cases "nextFreeTuple (table E)")
  obtain stored "next" where cp: "copyForPersistentInsert (nextObject E) source = (stored, next)"
    by (cases "copyForPersistentInsert (nextObject E) source")
  let ?E0 = "E\<lparr>table := setSlot T1 a stored, nextObject := next\<rparr>"
  obtain o1 Ec where common: "insertTupleCommon codec ?E0 a fallible True = (o1, Ec)"
    by (cases "insertTupleCommon codec ?E0 a fallible True")
  have nolimit: "\<not> (fallible \<and> m_tupleLimit (table E) \<le> visibleTupleCount (table E))"
  proof
    assume "fallible \<and> m_tupleLimit (table E) \<le> visibleTupleCount (table E)"
    then have "insertPersistentTuple codec E source fallible =
        (ConstraintFailureException CONSTRAINT_TYPE_ROW_LIMIT None, E)"
      by (simp add: insertPersistentTuple_def)
    then show False using run reached(1) by simp
  qed
  note unf = insertPersistentTuple_unfold [OF nolimit nf cp common]
  have o1: "o1 = out" using unf run by simp
  note slot = nextFreeTuple_slot [OF nf]
  have T1: "T1 = (table E)\<lparr>m_data := m_data T1, m_tupleCount := m_tupleCount (table E) + 1\<rparr>"
    using nf by (auto simp: nextFreeTuple_result)
  have ixs0: "m_indexes (table ?E0) = m_indexes (table E)"
    by (subst T1) (simp add: setSlot_def)
  have at0: "m_data (table ?E0) ! a = stored"
    using slot(1) by (simp add: setSlot_def)
  have same: "uniqueMatchingTuple ix stored = uniqueMatchingTuple ix source" for ix
    by (rule uniqueMatchingTuple_cong) (rule copyForPersistentInsert_values [OF cp])
  have "o1 = ConstraintFailureException CONSTRAINT_TYPE_UNIQUE (Some conflict) \<and>
         (\<exists>t cache str.
            Ec = ?E0\<lparr>table := (table ?E0)\<lparr>m_data := (m_data (table ?E0))[a := t],
                                       m_drIndexCache := cache\<rparr>,
                    drStream := str\<rparr> \<and>
            map_option streamView str = map_option streamView (drStream ?E0))"
  proof (rule insertTupleCommon_conflict [OF common, where i = i])
    show "o1 \<noteq> ConstraintFailureException CONSTRAINT_TYPE_NOT_NULL None"
      "o1 \<noteq> TupleStreamException"
      using reached o1 by simp_all
    show "a < length (m_data (table ?E0))" using slot(1) by (simp add: setSlot_def)
    show "i < length (m_indexes (table ?E0))" using i ixs0 by simp
    show "\<forall>j<i. isUniqueIndex (m_indexes (table ?E0) ! j) \<longrightarrow>
            uniqueMatchingTuple (m_indexes (table ?E0) ! j) (m_data (table ?E0) ! a) = None"
      using before unfolding ixs0 at0 same .
    show "isUniqueIndex (m_indexes (table ?E0) ! i)" using at(1) unfolding ixs0 .
    show "uniqueMatchingTuple (m_indexes (table ?E0) ! i) (m_data (table ?E0) ! a) = Some conflict"
      using at(2) unfolding ixs0 at0 same .
    show "\<forall>ix\<in>set (m_indexes (table ?E0)). a \<notin> snd ` set (entries ix)"
      unfolding ixs0 using free slot(4) by simp
    show "\<forall>s. drStream ?E0 = Some s \<longrightarrow> streamWellFormed s"
      using wf by simp
  qed
  then obtain t cache str where
    out: "o1 = ConstraintFailureException CONSTRAINT_TYPE_UNIQUE (Some conflict)"
    and Ec: "Ec = ?E0\<lparr>table := (table ?E0)\<lparr>m_data := (m_data (table ?E0))[a := t],
                                       m_drIndexCache := cache\<rparr>,
                    drStream := str\<rparr>"
    and view: "map_option streamView str = map_option streamView (drStream E)"
    by auto
  have E': "E' = Ec\<lparr>table := deleteTupleStorage (table Ec) a\<rparr>"
    using unf run out by simp
  let ?gone = "t\<lparr>isActive := False, isPendingDelete := False,
                  isPendingDeleteOnUndoRelease := False\<rparr>"
  have data: "m_data (table E') = (m_data T1)[a := ?gone]"
    using slot(1) by (simp add: E' Ec deleteTupleStorage_def setSlot_def)
  have "filter isVisible (m_data (table E')) = filter isVisible (m_data T1)"
    unfolding data using slot(1,2) by (intro filter_update_hidden) simp_all
  then have vis: "visibleTuples (table E') = visibleTuples (table E)"
    using slot(3) by (simp add: visibleTuples_def)
  have "m_indexes (table E') = m_indexes (table ?E0)"
    by (simp add: E' Ec deleteTupleStorage_def)
  then have ixs: "m_indexes (table E') = m_indexes (table E)"
    using ixs0 by simp
  have str: "drStream E' = str" "currentUndoQuantum E' = currentUndoQuantum E"
    by (simp_all add: E' Ec)
  show ?thesis
    using out o1 ixs view str vis by simp
qed

theorem insertPersistentTuple_unique_conflict_witness:
  "fst (insertPersistentTuple exampleCodec
     (exampleEngine
        (exampleTable [exampleRow 1 10 70]
           [exampleIndex ''v'' False [1] [([IntValue 10], 0)],
            exampleIndex ''pk'' True [0] [([IntValue 1], 0)]] (Some 1))
        (Some (exampleStream 10)))
     (exampleRow 1 20 0) True) = ConstraintFailureException CONSTRAINT_TYPE_UNIQUE (Some 0) \<and>
   m_indexes (table (snd (insertPersistentTuple exampleCodec
     (exampleEngine
        (exampleTable [exampleRow 1 10 70]
           [exampleIndex ''v'' False [1] [([IntValue 10], 0)],
            exampleIndex ''pk'' True [0] [([IntValue 1], 0)]] (Some 1))
        (Some (exampleStream 10)))
     (exampleRow 1 20 0) True))) =
     [exampleIndex ''v'' False [1] [([IntValue 10], 0)],
      exampleIndex ''pk'' True [0] [([IntValue 1], 0)]] \<and>
   map_option streamView (drStream (snd (insertPersistentTuple exampleCodec
     (exampleEngine
        (exampleTable [exampleRow 1 10 70]
           [exampleIndex ''v'' False [1] [([IntValue 10], 0)],
            exampleIndex ''pk'' True [0] [([IntValue 1], 0)]] (Some 1))
        (Some (exampleStream 10)))
     (exampleRow 1 20 0) True))) = Some (streamView (exampleStream 10))"
proof -
  let ?E = "exampleEngine
        (exampleTable [exampleRow 1 10 70]
           [exampleIndex ''v'' False [1] [([IntValue 10], 0)],
            exampleIndex ''pk'' True [0] [([IntValue 1], 0)]] (Some 1))
        (Some (exampleStream 10))"
  let ?r = "insertPersistentTuple exampleCodec ?E (exampleRow 1 20 0) True"
  have run: "?r = (fst ?r, snd ?r)" by simp
  have out: "fst ?r = ConstraintFailureException CONSTRAINT_TYPE_UNIQUE (Some 0)"
    by (simp add: insert_defs example_defs engine_defs)
  have reached: "fst ?r \<noteq> ConstraintFailureException CONSTRAINT_TYPE_ROW_LIMIT None"
    "fst ?r \<noteq> ConstraintFailureException CONSTRAINT_TYPE_NOT_NULL None"
    "fst ?r \<noteq> TupleStreamException"
    unfolding out by simp_all
  have i: "1 < length (m_indexes (table ?E))"
    by (simp add: example_defs engine_defs)
  have before: "\<forall>j<1. isUniqueIndex (m_indexes (table ?E) ! j) \<longrightarrow>
                   uniqueMatchingTuple (m_indexes (table ?E) ! j) (exampleRow 1 20 0) = None"
    by (simp add: example_defs engine_defs)
  have at: "isUniqueIndex (m_indexes (table ?E) ! 1)"
    "uniqueMatchingTuple (m_indexes (table ?E) ! 1) (exampleRow 1 20 0) = Some 0"
    by (simp_all add: example_defs engine_defs uniqueMatchingTuple_def keyOf_def getNValue_def)
  have free: "\<forall>index \<in> set (m_indexes (table ?E)).
                 firstFreeSlot (m_data (table ?E)) 0 \<notin> snd ` set (entries index)"
    by (simp add: example_defs engine_defs)
  have wf: "\<forall>stream. drStream ?E = Some stream \<longrightarrow> streamWellFormed stream"
    by (simp add: engine_defs streamWellFormed_def INVALID_DR_MARK_def)
  from insertPersistentTuple_unique_conflict [OF run reached i before at free wf]
  show ?thesis
    by (simp add: example_defs engine_defs)
qed

section \<open>Theorems: consistent tables\<close>

subsection \<open>Slots\<close>

lemma mset_filter_update:
  assumes "a < length d"
  shows "mset (map g (filter P (d[a := t]))) + (if P (d ! a) then {#g (d ! a)#} else {#}) =
         mset (map g (filter P d)) + (if P t then {#g t#} else {#})"
proof -
  have d: "d = take a d @ d ! a # drop (Suc a) d"
    using assms by (rule id_take_nth_drop)
  have u: "d[a := t] = take a d @ t # drop (Suc a) d"
    using assms by (rule upd_conv_take_nth_drop)
  have "mset (map g (filter P (take a d @ t # drop (Suc a) d))) +
          (if P (d ! a) then {#g (d ! a)#} else {#}) =
        mset (map g (filter P (take a d @ d ! a # drop (Suc a) d))) +
          (if P t then {#g t#} else {#})"
    by simp
  then show ?thesis using d u by metis
qed

lemma visibleTuples_setSlot:
  assumes "a < length (m_data T)"
  shows "visibleTuples (T\<lparr>m_data := (m_data T)[a := t]\<rparr>) +
           (if isVisible (m_data T ! a) then {#tupleImage (m_data T ! a)#} else {#}) =
         visibleTuples T + (if isVisible t then {#tupleImage t#} else {#})"
  using mset_filter_update [OF assms, of tupleImage isVisible t]
  by (simp add: visibleTuples_def)

lemma indexConsistent_iff:
  "indexConsistent d ix \<longleftrightarrow>
     distinct (entries ix) \<and>
     set (entries ix) = {(keyOf ix (d ! a), a) | a. a < length d \<and> isVisible (d ! a)}"
  by (auto simp: indexConsistent_def)

lemma indexConsistent_entry:
  "indexConsistent d ix \<Longrightarrow> a < length d \<Longrightarrow> isVisible (d ! a) \<Longrightarrow>
   (keyOf ix (d ! a), a) \<in> set (entries ix)"
  by (auto simp: indexConsistent_iff)

lemma indexConsistent_no_entry:
  "indexConsistent d ix \<Longrightarrow> \<not> (a < length d \<and> isVisible (d ! a)) \<Longrightarrow>
   a \<notin> snd ` set (entries ix)"
  by (auto simp: indexConsistent_iff)

lemma indexConsistent_add:
  assumes "indexConsistent d ix" "a < length d" "\<not> isVisible (d ! a)" "isVisible t"
  shows "indexConsistent (d[a := t]) (ix\<lparr>entries := entries ix @ [(keyOf ix t, a)]\<rparr>)"
proof -
  have "(keyOf ix t, a) \<notin> set (entries ix)"
    using assms by (auto simp: indexConsistent_iff)
  moreover have "{(keyOf ix (d[a := t] ! b), b) | b. b < length d \<and> isVisible (d[a := t] ! b)} =
        insert (keyOf ix t, a) {(keyOf ix (d ! b), b) | b. b < length d \<and> isVisible (d ! b)}"
    using assms(2,3,4) by (auto simp: nth_list_update)
  ultimately show ?thesis
    using assms(1) by (simp add: indexConsistent_iff)
qed

lemma indexConsistent_delete:
  assumes "indexConsistent d ix" "a < length d" "isVisible (d ! a)" "\<not> isVisible t"
  shows "indexConsistent (d[a := t])
           (ix\<lparr>entries := remove1 (keyOf ix (d ! a), a) (entries ix)\<rparr>)"
proof -
  have "{(keyOf ix (d[a := t] ! b), b) | b. b < length d \<and> isVisible (d[a := t] ! b)} =
        {(keyOf ix (d ! b), b) | b. b < length d \<and> isVisible (d ! b)} - {(keyOf ix (d ! a), a)}"
    using assms(2,3,4) by (auto simp: nth_list_update)
  then show ?thesis
    using assms(1) by (simp add: indexConsistent_iff)
qed

lemma indexConsistent_hidden:
  assumes "indexConsistent d ix" "a < length d" "\<not> isVisible (d ! a)" "\<not> isVisible t"
  shows "indexConsistent (d[a := t]) ix"
proof -
  have "{(keyOf ix (d[a := t] ! b), b) | b. b < length d \<and> isVisible (d[a := t] ! b)} =
        {(keyOf ix (d ! b), b) | b. b < length d \<and> isVisible (d ! b)}"
    using assms(2,3,4) by (auto simp: nth_list_update)
  then show ?thesis
    using assms(1) by (simp add: indexConsistent_iff)
qed

lemma indexConsistent_same_key:
  assumes "indexConsistent d ix" "a < length d" "isVisible (d ! a)" "isVisible t"
    and "keyOf ix t = keyOf ix (d ! a)"
  shows "indexConsistent (d[a := t]) ix"
proof -
  have "{(keyOf ix (d[a := t] ! b), b) | b. b < length d \<and> isVisible (d[a := t] ! b)} =
        {(keyOf ix (d ! b), b) | b. b < length d \<and> isVisible (d ! b)}"
    using assms(2,3,4,5) by (auto simp: nth_list_update)
  then show ?thesis
    using assms(1) by (simp add: indexConsistent_iff)
qed

lemma indexConsistent_update:
  assumes "indexConsistent d ix" "a < length d" "isVisible (d ! a)" "isVisible t"
  shows "indexConsistent (d[a := t])
           (ix\<lparr>entries := remove1 (keyOf ix (d ! a), a) (entries ix) @ [(keyOf ix t, a)]\<rparr>)"
proof -
  let ?h = "(d ! a)\<lparr>isActive := False\<rparr>"
  have 1: "indexConsistent (d[a := ?h])
             (ix\<lparr>entries := remove1 (keyOf ix (d ! a), a) (entries ix)\<rparr>)"
    using assms by (intro indexConsistent_delete) simp_all
  have "indexConsistent ((d[a := ?h])[a := t])
          ((ix\<lparr>entries := remove1 (keyOf ix (d ! a), a) (entries ix)\<rparr>)
           \<lparr>entries := entries (ix\<lparr>entries := remove1 (keyOf ix (d ! a), a) (entries ix)\<rparr>) @
              [(keyOf (ix\<lparr>entries := remove1 (keyOf ix (d ! a), a) (entries ix)\<rparr>) t, a)]\<rparr>)"
    using assms by (intro indexConsistent_add [OF 1]) simp_all
  then show ?thesis by simp
qed

lemma indexConsistent_append:
  assumes "indexConsistent d ix" "\<not> isVisible c"
  shows "indexConsistent (d @ [c]) ix"
proof -
  have "{(keyOf ix ((d @ [c]) ! b), b) | b. b < length (d @ [c]) \<and> isVisible ((d @ [c]) ! b)} =
        {(keyOf ix (d ! b), b) | b. b < length d \<and> isVisible (d ! b)}"
    using assms(2) by (auto simp: nth_append less_Suc_eq)
  then show ?thesis
    using assms(1) by (simp add: indexConsistent_iff)
qed


subsection \<open>The loops over the indexes\<close>

lemma tryInsertOnAllIndexes_none:
  "tryInsertOnAllIndexes passed rest t a = (None, ixs') \<Longrightarrow>
   ixs' = passed @ map (\<lambda>ix. ix\<lparr>entries := entries ix @ [(keyOf ix t, a)]\<rparr>) rest"
proof (induction rest arbitrary: passed)
  case Nil
  then show ?case by simp
next
  case (Cons index rest)
  show ?case
  proof (cases "addEntry index t a")
    case (Inl c)
    then show ?thesis using Cons.prems by simp
  next
    case (Inr index')
    then have index': "index' = index\<lparr>entries := entries index @ [(keyOf index t, a)]\<rparr>"
      by (simp add: addEntry_Inr)
    have "tryInsertOnAllIndexes (passed @ [index']) rest t a = (None, ixs')"
      using Cons.prems Inr by simp
    from Cons.IH [OF this] show ?thesis by (simp add: index')
  qed
qed

lemma tryInsertOnAllIndexes_ok:
  "\<forall>ix \<in> set rest. isUniqueIndex ix \<longrightarrow> uniqueMatchingTuple ix t = None \<Longrightarrow>
   tryInsertOnAllIndexes passed rest t a =
     (None, passed @ map (\<lambda>ix. ix\<lparr>entries := entries ix @ [(keyOf ix t, a)]\<rparr>) rest)"
proof (induction rest arbitrary: passed)
  case Nil
  then show ?case by simp
next
  case (Cons index rest)
  have "addEntry index t a = Inr (index\<lparr>entries := entries index @ [(keyOf index t, a)]\<rparr>)"
    using Cons.prems by (simp add: addEntry_Inr)
  then show ?case using Cons by simp
qed

lemma tryInsertOnAllIndexes_none_unique:
  "tryInsertOnAllIndexes passed rest t a = (None, ixs') \<Longrightarrow>
   \<forall>ix \<in> set rest. isUniqueIndex ix \<longrightarrow> uniqueMatchingTuple ix t = None"
proof (induction rest arbitrary: passed)
  case Nil
  then show ?case by simp
next
  case (Cons index rest)
  show ?case
  proof (cases "addEntry index t a")
    case (Inl c)
    then show ?thesis using Cons.prems by simp
  next
    case (Inr index')
    then have "isUniqueIndex index \<longrightarrow> uniqueMatchingTuple index t = None"
      by (simp add: addEntry_Inr)
    moreover have "tryInsertOnAllIndexes (passed @ [index']) rest t a = (None, ixs')"
      using Cons.prems Inr by simp
    from Cons.IH [OF this]
    have "\<forall>ix \<in> set rest. isUniqueIndex ix \<longrightarrow> uniqueMatchingTuple ix t = None" .
    ultimately show ?thesis by simp
  qed
qed

lemma deleteFromAllIndexes_ok:
  "\<forall>ix \<in> set ixs. (keyOf ix t, a) \<in> set (entries ix) \<Longrightarrow>
   deleteFromAllIndexes ixs t a =
     (True, map (\<lambda>ix. ix\<lparr>entries := remove1 (keyOf ix t, a) (entries ix)\<rparr>) ixs)"
  by (induction ixs) (simp_all add: deleteEntry_def)

lemma insertIntoAllIndexes_ok:
  "\<forall>ix \<in> set ixs. isUniqueIndex ix \<longrightarrow> uniqueMatchingTuple ix t = None \<Longrightarrow>
   insertIntoAllIndexes ixs t a =
     (True, map (\<lambda>ix. ix\<lparr>entries := entries ix @ [(keyOf ix t, a)]\<rparr>) ixs)"
proof (induction ixs)
  case Nil
  then show ?case by simp
next
  case (Cons index rest)
  have "addEntry index t a = Inr (index\<lparr>entries := entries index @ [(keyOf index t, a)]\<rparr>)"
    using Cons.prems by (simp add: addEntry_Inr)
  then show ?case using Cons by simp
qed

lemma uniqueMatchingTuple_None:
  "uniqueMatchingTuple ix t = None \<longleftrightarrow> keyOf ix t \<notin> fst ` set (entries ix)"
  by (simp add: uniqueMatchingTuple_def map_of_eq_None_iff)

lemma filter_nth_conv:
  "filter P d = map (nth d) (filter (\<lambda>a. P (d ! a)) [0..<length d])"
proof -
  have "filter P (map (nth d) [0..<length d]) =
        map (nth d) (filter (P \<circ> nth d) [0..<length d])"
    by (rule filter_map)
  then show ?thesis by (simp add: map_nth comp_def)
qed

lemma indexConsistent_keys:
  assumes "indexConsistent d ix"
  shows "fst ` set (entries ix) = keyOf ix ` set (filter isVisible d)"
proof -
  have es: "set (entries ix) = {(keyOf ix (d ! a), a) | a. a < length d \<and> isVisible (d ! a)}"
    using assms by (simp add: indexConsistent_iff)
  show ?thesis
  proof (intro set_eqI iffI)
    fix k assume "k \<in> fst ` set (entries ix)"
    then obtain a where a: "a < length d" "isVisible (d ! a)" "k = keyOf ix (d ! a)"
      unfolding es by auto
    then have "d ! a \<in> set (filter isVisible d)" by simp
    then show "k \<in> keyOf ix ` set (filter isVisible d)" using a(3) by blast
  next
    fix k assume "k \<in> keyOf ix ` set (filter isVisible d)"
    then obtain t where t: "t \<in> set d" "isVisible t" "k = keyOf ix t" by auto
    then obtain a where a: "a < length d" "d ! a = t" by (auto simp: in_set_conv_nth)
    have "(k, a) \<in> set (entries ix)" unfolding es using t a by auto
    then show "k \<in> fst ` set (entries ix)" by (metis fst_conv imageI)
  qed
qed

lemma distinct_keys_inj:
  assumes "distinct (map f (filter P d))" "a < length d" "b < length d" "P (d ! a)" "P (d ! b)"
    and "f (d ! a) = f (d ! b)"
  shows "a = b"
proof -
  let ?as = "filter (\<lambda>a. P (d ! a)) [0..<length d]"
  have "map f (filter P d) = map (\<lambda>a. f (d ! a)) ?as"
    by (subst filter_nth_conv) (simp add: comp_def)
  then have "inj_on (\<lambda>a. f (d ! a)) (set ?as)"
    using assms(1) by (simp add: distinct_map)
  moreover have "a \<in> set ?as" "b \<in> set ?as" using assms by simp_all
  ultimately show ?thesis using assms(6) by (auto dest: inj_onD)
qed

lemma indexConsistent_unique_entry:
  assumes ic: "indexConsistent d ix"
    and dist: "distinct (map (keyOf ix) (filter isVisible d))"
    and e: "(k, b) \<in> set (entries ix)"
    and a: "a < length d" "isVisible (d ! a)" "keyOf ix (d ! a) = k"
  shows "b = a"
proof -
  from ic e have "b < length d" "isVisible (d ! b)" "keyOf ix (d ! b) = k"
    by (auto simp: indexConsistent_iff)
  with distinct_keys_inj [OF dist _ _ _ _, of b a] a show ?thesis by simp
qed

lemma indexConsistent_distinct_keys:
  assumes ic: "indexConsistent d ix"
    and dist: "distinct (map (keyOf ix) (filter isVisible d))"
  shows "distinct (map fst (entries ix))"
proof -
  have "inj_on fst (set (entries ix))"
  proof (rule inj_onI)
    fix x y assume x: "x \<in> set (entries ix)" and y: "y \<in> set (entries ix)" and eq: "fst x = fst y"
    obtain k b where xb: "x = (k, b)" by (cases x)
    obtain k' c where yc: "y = (k', c)" by (cases y)
    from ic x xb have b: "b < length d" "isVisible (d ! b)" "keyOf ix (d ! b) = k"
      by (auto simp: indexConsistent_iff)
    from eq xb yc have "k' = k" by simp
    with indexConsistent_unique_entry [OF ic dist _ b, of c] y yc have "c = b" by simp
    with xb yc \<open>k' = k\<close> show "x = y" by simp
  qed
  moreover have "distinct (entries ix)" using ic by (simp add: indexConsistent_iff)
  ultimately show ?thesis by (simp add: distinct_map)
qed

lemma uniqueMatchingTuple_visible:
  assumes ic: "indexConsistent d ix"
    and dist: "distinct (map (keyOf ix) (filter isVisible d))"
    and a: "a < length d" "isVisible (d ! a)" "keyOf ix (d ! a) = keyOf ix t"
  shows "uniqueMatchingTuple ix t = Some a"
proof -
  have "(keyOf ix t, a) \<in> set (entries ix)"
    using indexConsistent_entry [OF ic a(1,2)] a(3) by simp
  moreover have "distinct (map fst (entries ix))"
    using indexConsistent_distinct_keys [OF ic dist] .
  ultimately show ?thesis
    by (simp add: uniqueMatchingTuple_def)
qed


subsection \<open>Looking a tuple up for undo\<close>

lemma inj_rawBytes: "inj rawBytes"
proof (rule injI)
  fix x y assume "rawBytes x = rawBytes y"
  then show "x = y" by (cases x; cases y) simp_all
qed

lemma memcmpEqual_image:
  assumes "columnsAsCounted sch u" "columnsAsCounted sch t"
  shows "memcmpEqual u t (tupleLength sch) \<longleftrightarrow> tupleImage u = tupleImage t"
proof -
  have "memcmpEqual u t (columnCount sch + hiddenColumnCount sch) \<longleftrightarrow>
     map rawBytes (columns u) = map rawBytes (columns t) \<and>
     map rawBytes (hiddenColumns u) = map rawBytes (hiddenColumns t)"
    using assms by (intro memcmpEqual_whole) (simp_all add: columnsAsCounted_def)
  then show ?thesis
    by (simp add: tupleLength_def tupleImage_def inj_map_eq_map [OF inj_rawBytes])
qed

lemma columnsAsCounted_image:
  "tupleImage u = tupleImage t \<Longrightarrow> columnsAsCounted sch u = columnsAsCounted sch t"
  by (simp add: tupleImage_def columnsAsCounted_def)

lemma keyOf_image: "tupleImage u = tupleImage t \<Longrightarrow> keyOf ix u = keyOf ix t"
  by (rule keyOf_cong) (simp add: tupleImage_def)

lemma visibleTuples_member:
  "im \<in># visibleTuples T \<longleftrightarrow>
   (\<exists>a. a < length (m_data T) \<and> isVisible (m_data T ! a) \<and> tupleImage (m_data T ! a) = im)"
proof
  assume "im \<in># visibleTuples T"
  then obtain u where "u \<in> set (m_data T)" "isVisible u" "tupleImage u = im"
    by (auto simp: visibleTuples_def)
  then show "\<exists>a. a < length (m_data T) \<and> isVisible (m_data T ! a) \<and>
      tupleImage (m_data T ! a) = im"
    by (metis in_set_conv_nth)
next
  assume "\<exists>a. a < length (m_data T) \<and> isVisible (m_data T ! a) \<and>
      tupleImage (m_data T ! a) = im"
  then obtain a where a: "a < length (m_data T)" "isVisible (m_data T ! a)"
      "tupleImage (m_data T ! a) = im" by blast
  then have "m_data T ! a \<in> set (filter isVisible (m_data T))" by simp
  then have "tupleImage (m_data T ! a) \<in> tupleImage ` set (filter isVisible (m_data T))"
    by (rule imageI)
  then show "im \<in># visibleTuples T"
    using a(3) by (simp add: visibleTuples_def)
qed

lemma primaryKeyIndex_member:
  "primaryKeyIndex T = Some pk \<Longrightarrow> pk \<in> set (m_indexes T)"
  by (auto simp: primaryKeyIndex_def split: option.splits if_splits)

lemma tableConsistent_index:
  assumes "tableConsistent T" "ix \<in> set (m_indexes T)"
  shows "indexConsistent (m_data T) ix"
    and "isUniqueIndex ix \<Longrightarrow> distinct (map (keyOf ix) (filter isVisible (m_data T)))"
  using assms by (auto simp: tableConsistent_def list_all_iff)

lemma tableConsistent_counted:
  assumes "tableConsistent T" "a < length (m_data T)" "isVisible (m_data T ! a)"
  shows "columnsAsCounted (m_schema T) (m_data T ! a)"
  using assms by (auto simp: tableConsistent_def list_all_iff)

lemma lookupTupleForUndo_key:
  assumes tc: "tableConsistent T"
    and pk: "primaryKeyIndex T = Some pk"
    and a: "a < length (m_data T)" "isVisible (m_data T ! a)"
           "keyOf pk (m_data T ! a) = keyOf pk t"
  shows "lookupTupleForUndo T t = Some a"
proof -
  have mem: "pk \<in> set (m_indexes T)" using pk by (rule primaryKeyIndex_member)
  have "isUniqueIndex pk" using tc pk by (simp add: tableConsistent_def)
  then have "uniqueMatchingTuple pk t = Some a"
    using tableConsistent_index [OF tc mem] a by (intro uniqueMatchingTuple_visible) simp_all
  then show ?thesis by (simp add: lookupTupleForUndo_def lookupTuple_def pk)
qed

lemma lookupTupleForUndo_visible:
  assumes tc: "tableConsistent T"
    and im: "tupleImage t \<in># visibleTuples T"
  shows "\<exists>b. lookupTupleForUndo T t = Some b \<and> b < length (m_data T) \<and>
             isVisible (m_data T ! b) \<and> tupleImage (m_data T ! b) = tupleImage t"
proof -
  from im obtain a where a: "a < length (m_data T)" "isVisible (m_data T ! a)"
      "tupleImage (m_data T ! a) = tupleImage t"
    by (auto simp: visibleTuples_member)
  show ?thesis
  proof (cases "primaryKeyIndex T")
    case (Some pk)
    have "lookupTupleForUndo T t = Some a"
      using a(1,2) keyOf_image [OF a(3)] by (intro lookupTupleForUndo_key [OF tc Some])
    then show ?thesis using a by blast
  next
    case None
    let ?p = "\<lambda>tableTuple. memcmpEqual tableTuple t (tupleLength (m_schema T))"
    have look: "lookupTupleForUndo T t = scanForTuple ?p 0 (m_data T)"
      by (simp add: lookupTupleForUndo_def lookupTuple_def None)
    have ct: "columnsAsCounted (m_schema T) t"
      using tableConsistent_counted [OF tc a(1,2)] columnsAsCounted_image [OF a(3)] by simp
    have "?p (m_data T ! a)"
      using tableConsistent_counted [OF tc a(1,2)] ct a(3) by (simp add: memcmpEqual_image)
    moreover have "m_data T ! a \<in> set (m_data T)" using a(1) by simp
    ultimately have "scanForTuple ?p 0 (m_data T) \<noteq> None"
      using a(2) by (intro scanForTuple_exists [of "m_data T ! a"]) simp_all
    then obtain b where b: "scanForTuple ?p 0 (m_data T) = Some b" by auto
    from scanForTuple_found [OF b]
    have fb: "b < length (m_data T)" "isVisible (m_data T ! b)" "?p (m_data T ! b)"
      by simp_all
    have "tupleImage (m_data T ! b) = tupleImage t"
      using tableConsistent_counted [OF tc fb(1,2)] ct fb(3) by (simp add: memcmpEqual_image)
    then show ?thesis using look b fb by simp
  qed
qed

section \<open>Theorems: what is observed of a table\<close>

lemma keyOf_keyOfImage: "keyOf ix t = keyOfImage ix (tupleImage t)"
  by (simp add: keyOf_def keyOfImage_def getNValue_def tupleImage_def)

lemma keyOfImage_entries [simp]: "keyOfImage (ix\<lparr>entries := es\<rparr>) = keyOfImage ix"
  by (rule ext) (simp add: keyOfImage_def)

lemma distinct_count_le_1: "distinct xs \<longleftrightarrow> (\<forall>k. count (mset xs) k \<le> 1)"
proof
  assume "distinct xs"
  then show "\<forall>k. count (mset xs) k \<le> 1"
    by (simp add: distinct_count_atmost_1)
next
  assume a: "\<forall>k. count (mset xs) k \<le> 1"
  have "count (mset xs) k = (if k \<in> set xs then 1 else 0)" for k
  proof (cases "k \<in> set xs")
    case True
    then have "count (mset xs) k \<ge> 1" by (simp add: Suc_le_eq)
    with a True show ?thesis by (simp add: le_antisym)
  next
    case False
    then show ?thesis by (simp add: count_eq_zero_iff)
  qed
  then show "distinct xs" by (simp add: distinct_count_atmost_1)
qed

lemma distinct_keys_visibleTuples:
  "distinct (map (keyOf ix) (filter isVisible (m_data T))) \<longleftrightarrow>
   (\<forall>k. count (image_mset (keyOfImage ix) (visibleTuples T)) k \<le> 1)"
proof -
  have e: "map (keyOf ix) (filter isVisible (m_data T)) =
        map (keyOfImage ix) (map tupleImage (filter isVisible (m_data T)))"
    by (simp add: keyOf_keyOfImage)
  have "mset (map (keyOf ix) (filter isVisible (m_data T))) =
        image_mset (keyOfImage ix) (visibleTuples T)"
    unfolding e visibleTuples_def by (simp only: mset_map)
  then show ?thesis
    by (metis distinct_count_le_1)
qed

lemma counted_visibleTuples:
  "list_all (columnsAsCounted sch) (filter isVisible (m_data T)) \<longleftrightarrow>
   (\<forall>row \<in># visibleTuples T.
      length (fst row) = columnCount sch \<and> length (snd row) = hiddenColumnCount sch)"
  by (auto simp: visibleTuples_def list_all_iff columnsAsCounted_def tupleImage_def)

lemma tableConsistent_iff:
  "tableConsistent T \<longleftrightarrow>
     (\<forall>ix \<in> set (m_indexes T). indexConsistent (m_data T) ix) \<and>
     (\<forall>ix \<in> set (m_indexes T). isUniqueIndex ix \<longrightarrow>
        (\<forall>k. count (image_mset (keyOfImage ix) (visibleTuples T)) k \<le> 1)) \<and>
     (\<forall>row \<in># visibleTuples T.
        length (fst row) = columnCount (m_schema T) \<and>
        length (snd row) = hiddenColumnCount (m_schema T)) \<and>
     (\<forall>pk. primaryKeyIndex T = Some pk \<longrightarrow> isUniqueIndex pk)"
  unfolding tableConsistent_def counted_visibleTuples
  by (auto simp: list_all_iff distinct_keys_visibleTuples split: option.splits)

lemma tableShape_indexes:
  assumes "tableShape T' = tableShape T"
  shows "length (m_indexes T') = length (m_indexes T)"
    and "i < length (m_indexes T) \<Longrightarrow>
         (m_indexes T' ! i)\<lparr>entries := []\<rparr> = (m_indexes T ! i)\<lparr>entries := []\<rparr>"
proof -
  have m: "map (\<lambda>index. index\<lparr>entries := []\<rparr>) (m_indexes T') =
           map (\<lambda>index. index\<lparr>entries := []\<rparr>) (m_indexes T)"
    using assms by (simp add: tableShape_def)
  then show len: "length (m_indexes T') = length (m_indexes T)"
    by (metis length_map)
  assume i: "i < length (m_indexes T)"
  have "map (\<lambda>index. index\<lparr>entries := []\<rparr>) (m_indexes T') ! i =
        map (\<lambda>index. index\<lparr>entries := []\<rparr>) (m_indexes T) ! i"
    using m by simp
  then show "(m_indexes T' ! i)\<lparr>entries := []\<rparr> = (m_indexes T ! i)\<lparr>entries := []\<rparr>"
    using i len by simp
qed

lemma same_shape_index:
  assumes "ix'\<lparr>entries := []\<rparr> = ix\<lparr>entries := []\<rparr>"
  shows "isUniqueIndex ix' = isUniqueIndex ix" "keyOfImage ix' = keyOfImage ix"
proof -
  have "isUniqueIndex (ix'\<lparr>entries := []\<rparr>) = isUniqueIndex (ix\<lparr>entries := []\<rparr>)"
    using assms by simp
  then show "isUniqueIndex ix' = isUniqueIndex ix" by simp
  have "keyOfImage (ix'\<lparr>entries := []\<rparr>) = keyOfImage (ix\<lparr>entries := []\<rparr>)"
    using assms by simp
  then show "keyOfImage ix' = keyOfImage ix" by simp
qed

lemma tableShape_member:
  assumes "tableShape T' = tableShape T" "ix' \<in> set (m_indexes T')"
  shows "\<exists>ix \<in> set (m_indexes T). ix'\<lparr>entries := []\<rparr> = ix\<lparr>entries := []\<rparr>"
proof -
  from assms(2) obtain i where i: "i < length (m_indexes T')" "m_indexes T' ! i = ix'"
    by (auto simp: in_set_conv_nth)
  then have i': "i < length (m_indexes T)"
    using tableShape_indexes(1) [OF assms(1)] by simp
  from tableShape_indexes(2) [OF assms(1) i'] i(2)
  have "ix'\<lparr>entries := []\<rparr> = (m_indexes T ! i)\<lparr>entries := []\<rparr>" by simp
  moreover have "m_indexes T ! i \<in> set (m_indexes T)" using i' by simp
  ultimately show ?thesis by blast
qed

lemma tableShape_primaryKey:
  assumes "tableShape T' = tableShape T" "primaryKeyIndex T' = Some pk'"
  shows "\<exists>pk. primaryKeyIndex T = Some pk \<and> pk'\<lparr>entries := []\<rparr> = pk\<lparr>entries := []\<rparr>"
proof -
  have p: "m_pkeyIndex T' = m_pkeyIndex T"
    using assms(1) by (simp add: tableShape_def)
  from assms(2) obtain i where i: "m_pkeyIndex T' = Some i" "i < length (m_indexes T')"
      "pk' = m_indexes T' ! i"
    by (auto simp: primaryKeyIndex_def split: option.splits if_splits)
  then have i': "i < length (m_indexes T)"
    using tableShape_indexes(1) [OF assms(1)] by simp
  have "primaryKeyIndex T = Some (m_indexes T ! i)"
    using i(1) i' p by (simp add: primaryKeyIndex_def)
  moreover have "pk'\<lparr>entries := []\<rparr> = (m_indexes T ! i)\<lparr>entries := []\<rparr>"
    using tableShape_indexes(2) [OF assms(1) i'] i(3) by simp
  ultimately show ?thesis by blast
qed

lemma tableConsistent_transfer:
  assumes tc: "tableConsistent T"
    and shape: "tableShape T' = tableShape T"
    and vis: "visibleTuples T' = visibleTuples T"
    and ic: "\<forall>ix \<in> set (m_indexes T'). indexConsistent (m_data T') ix"
  shows "tableConsistent T'"
proof -
  have u: "\<forall>ix' \<in> set (m_indexes T'). isUniqueIndex ix' \<longrightarrow>
        (\<forall>k. count (image_mset (keyOfImage ix') (visibleTuples T')) k \<le> 1)"
  proof (intro ballI impI allI)
    fix ix' k assume m: "ix' \<in> set (m_indexes T')" and u: "isUniqueIndex ix'"
    from tableShape_member [OF shape m] obtain ix where
      ix: "ix \<in> set (m_indexes T)" "ix'\<lparr>entries := []\<rparr> = ix\<lparr>entries := []\<rparr>" by blast
    have "isUniqueIndex ix" using same_shape_index(1) [OF ix(2)] u by simp
    then have "count (image_mset (keyOfImage ix) (visibleTuples T)) k \<le> 1"
      using tc ix(1) by (simp add: tableConsistent_iff)
    then show "count (image_mset (keyOfImage ix') (visibleTuples T')) k \<le> 1"
      using same_shape_index(2) [OF ix(2)] vis by simp
  qed
  have sch: "m_schema T' = m_schema T" using shape by (simp add: tableShape_def)
  have c: "\<forall>row \<in># visibleTuples T'.
        length (fst row) = columnCount (m_schema T') \<and>
        length (snd row) = hiddenColumnCount (m_schema T')"
    using tc vis sch by (simp add: tableConsistent_iff)
  have p: "\<forall>pk'. primaryKeyIndex T' = Some pk' \<longrightarrow> isUniqueIndex pk'"
  proof (intro allI impI)
    fix pk' assume "primaryKeyIndex T' = Some pk'"
    from tableShape_primaryKey [OF shape this] obtain pk where
      pk: "primaryKeyIndex T = Some pk" "pk'\<lparr>entries := []\<rparr> = pk\<lparr>entries := []\<rparr>" by blast
    have "isUniqueIndex pk" using tc pk(1) by (simp add: tableConsistent_iff)
    then show "isUniqueIndex pk'" using same_shape_index(1) [OF pk(2)] by simp
  qed
  from ic u c p show ?thesis
    unfolding tableConsistent_iff by blast
qed

lemma pinnedTuples_setSlot:
  assumes "a < length (m_data T)"
  shows "pinnedTuples (T\<lparr>m_data := (m_data T)[a := t]\<rparr>) =
         (pinnedTuples T)
           (a := if isActive t \<and> \<not> isPendingDelete t \<and> isPendingDeleteOnUndoRelease t
                 then Some (tupleImage t) else None)"
  using assms by (auto simp: pinnedTuples_def fun_eq_iff nth_list_update)

lemma pinnedTuples_visible:
  "a < length (m_data T) \<Longrightarrow> isVisible (m_data T ! a) \<Longrightarrow> pinnedTuples T a = None"
  by (simp add: pinnedTuples_def isVisible_def)

lemma pinnedTuples_inactive:
  "\<not> (a < length (m_data T) \<and> isActive (m_data T ! a)) \<Longrightarrow> pinnedTuples T a = None"
  by (auto simp: pinnedTuples_def)

lemma unique_keys_add:
  assumes "\<forall>k. count (image_mset f M) k \<le> 1" "f x \<notin># image_mset f M"
  shows "\<forall>k. count (image_mset f (add_mset x M)) k \<le> 1"
proof
  fix k
  show "count (image_mset f (add_mset x M)) k \<le> 1"
  proof (cases "k = f x")
    case True
    have "count (image_mset f M) (f x) = 0"
      using assms(2) by (simp add: count_eq_zero_iff)
    then show ?thesis using True by simp
  next
    case False
    then show ?thesis using assms(1) by simp
  qed
qed

lemma unique_keys_notin:
  assumes "\<forall>k. count (image_mset f (add_mset x M)) k \<le> 1"
  shows "f x \<notin># image_mset f M"
proof
  assume "f x \<in># image_mset f M"
  then have "count (image_mset f M) (f x) \<ge> 1" by (simp add: Suc_le_eq)
  then have "count (image_mset f (add_mset x M)) (f x) \<ge> 2" by simp
  with assms show False by (metis Suc_1 not_less_eq_eq)
qed

lemma unique_keys_subset:
  assumes "\<forall>k. count (image_mset f M) k \<le> 1" "M' \<subseteq># M"
  shows "\<forall>k. count (image_mset f M') k \<le> 1"
proof
  fix k
  have "image_mset f M' \<subseteq># image_mset f M"
    using assms(2) by (rule image_mset_subseteq_mono)
  then have "count (image_mset f M') k \<le> count (image_mset f M) k"
    by (rule mset_subset_eq_count)
  with assms(1) show "count (image_mset f M') k \<le> 1"
    by (meson le_trans)
qed

section \<open>Theorems: the record of an operation in the stream\<close>

lemma published_streamView:
  "streamView s = streamView s' \<Longrightarrow> published s = published s'"
  by (simp add: streamView_def published_def getLastCommittedSequenceNumberAndUniqueIds_def)

lemma periodicFlush_published:
  assumes "published s = published s'"
    and "m_committedUso s \<le> length (m_buffer s)" "m_committedUso s' \<le> length (m_buffer s')"
  shows "fst (periodicFlush s) = fst (periodicFlush s')"
proof -
  have t: "take (m_committedUso s) (m_buffer s) = take (m_committedUso s') (m_buffer s')"
    using arg_cong [OF assms(1), of fst] by (simp add: published_def)
  have c: "m_committedUso s = m_committedUso s'" "m_flushedUso s = m_flushedUso s'"
    using arg_cong [OF assms(1), of "\<lambda>p. fst (snd p)"] by (simp_all add: published_def)
  have "drop (m_flushedUso s') (take (m_committedUso s) (m_buffer s)) =
        drop (m_flushedUso s') (take (m_committedUso s') (m_buffer s'))"
    by (simp only: t)
  then show ?thesis
    by (simp add: periodicFlush_def c)
qed

lemma published_transactionBegun:
  "m_committedUso s \<le> length (m_buffer s) \<Longrightarrow>
   published (transactionBegun codec u s) = published s"
  by (simp add: transactionBegun_def beginTransaction_def published_def
        getLastCommittedSequenceNumberAndUniqueIds_def)

lemma published_recordAppended:
  "m_committedUso s \<le> length (m_buffer s) \<Longrightarrow>
   published (recordAppended codec E ty ts s) = published s"
  by (simp add: recordAppended_def Let_def transactionBegun_def beginTransaction_def
        published_def getLastCommittedSequenceNumberAndUniqueIds_def)

lemma recordAppended_opened [simp]: "m_opened (recordAppended codec E ty ts s)"
  by (simp add: recordAppended_def Let_def transactionBegun_def beginTransaction_def)

lemma recordAppended_enabled [simp]:
  "m_enabled (recordAppended codec E ty ts s) = m_enabled s"
  by (simp add: recordAppended_def Let_def transactionBegun_def beginTransaction_def)

lemma appendRecord_enabled:
  assumes "m_enabled s"
  shows "appendRecord codec u ty row s =
     (let s1 = transactionBegun codec u s;
          rows = m_txnRowCount s1 + rowCostForDRRecord codec ty;
          buffer = m_buffer s1 @ row
      in if m_rowTarget s < int rows \<or>
            m_secondaryCapacity s < MAGIC_DR_TRANSACTION_PADDING + (length buffer - m_beginTxnUso s1)
         then (TupleStreamException, INVALID_DR_MARK, s1)
         else (Returned, length (m_buffer s), s1\<lparr>m_txnRowCount := rows, m_buffer := buffer\<rparr>))"
  using assms by (simp add: appendRecord_def transactionBegun_def Let_def)

lemma drAppend_emits:
  assumes emits: "drEmits E" and s: "drStream E = Some s"
    and app: "drAppend codec E True ty ts = (out, mark, E1)"
  shows "(out = Returned \<and> mark = length (m_buffer s) \<and>
          drStream E1 = Some (recordAppended codec E ty ts s)) \<or>
         (out = TupleStreamException \<and> mark = INVALID_DR_MARK \<and>
          drStream E1 = Some (transactionBegun codec (currentUniqueId E) s))"
proof -
  have g: "m_enabled s" "\<not> m_isMaterialized (table E)" "m_drEnabled (table E)"
    using emits s by (simp_all add: drEmits_def)
  obtain ui cache where u: "getUniqueIndexForDR (isActiveActiveDREnabled E) (crcFunctions codec)
                    (m_indexes (table E)) (m_drIndexCache (table E)) = (ui, cache)"
    by (cases "getUniqueIndexForDR (isActiveActiveDREnabled E) (crcFunctions codec)
                    (m_indexes (table E)) (m_drIndexCache (table E))")
  obtain o1 m1 s1 where r: "appendRecord codec (currentUniqueId E) ty
                         (rowRecord codec ty ts ui) s = (o1, m1, s1)"
    by (metis prod_cases3)
  have "drAppend codec E True ty ts =
      (o1, m1, E\<lparr>table := (table E)\<lparr>m_drIndexCache := cache\<rparr>, drStream := Some s1\<rparr>)"
    using s g u r by (simp add: drAppend_def)
  then have res: "out = o1" "mark = m1" "drStream E1 = Some s1"
    using app by auto
  show ?thesis
    using r res u unfolding appendRecord_enabled [OF g(1)]
    by (auto simp: Let_def recordAppended_def split: if_splits)
qed

lemma drAppend_silent:
  assumes "\<not> drEmits E" and app: "drAppend codec E should ty ts = (out, mark, E1)"
  shows "out = Returned \<and> mark = INVALID_DR_MARK \<and> drStream E1 = drStream E"
  using drAppend_cases [OF app]
proof (elim disjE exE conjE)
  assume "out = Returned" "mark = INVALID_DR_MARK" "E1 = E"
  then show ?thesis by simp
next
  fix s s' row cache
  assume s: "drStream E = Some s" and g: "\<not> m_isMaterialized (table E)" "m_drEnabled (table E)"
    and r: "appendRecord codec (currentUniqueId E) ty row s = (out, mark, s')"
    and E1: "E1 = E\<lparr>table := (table E)\<lparr>m_drIndexCache := cache\<rparr>, drStream := Some s'\<rparr>"
  have "\<not> m_enabled s" using assms(1) s g by (simp add: drEmits_def)
  then have "out = Returned" "mark = INVALID_DR_MARK" "s' = s"
    using r by (simp_all add: appendRecord_def)
  then show ?thesis using E1 s by simp
qed

lemma drAppend_wellFormed:
  assumes app: "drAppend codec E should ty ts = (Returned, mark, E1)"
    and wf: "\<forall>s. drStream E = Some s \<longrightarrow> streamWellFormed s"
  shows "\<forall>s. drStream E1 = Some s \<longrightarrow> streamWellFormed s"
  using drAppend_cases [OF app]
proof (elim disjE exE conjE)
  assume "E1 = E"
  then show ?thesis using wf by simp
next
  fix s s' row cache
  assume s: "drStream E = Some s"
    and r: "appendRecord codec (currentUniqueId E) ty row s = (Returned, mark, s')"
    and E1: "E1 = E\<lparr>table := (table E)\<lparr>m_drIndexCache := cache\<rparr>, drStream := Some s'\<rparr>"
  have "streamWellFormed s'"
    using appendRecord_wellFormed [OF _ r] wf s by simp
  then show ?thesis using E1 by simp
qed

lemma drEmits_cong:
  "drStream E' = Some s' \<Longrightarrow> drStream E = Some s \<Longrightarrow> m_enabled s' = m_enabled s \<Longrightarrow>
   m_isMaterialized (table E') = m_isMaterialized (table E) \<Longrightarrow>
   m_drEnabled (table E') = m_drEnabled (table E) \<Longrightarrow> drEmits E' = drEmits E"
  by (simp add: drEmits_def)

section \<open>Theorems: one tuple made visible, hidden or replaced\<close>

lemma primaryKeyIndex_counts [simp]:
  "primaryKeyIndex (T\<lparr>m_tupleCount := n\<rparr>) = primaryKeyIndex T"
  "primaryKeyIndex (T\<lparr>m_tuplesPinnedByUndo := n\<rparr>) = primaryKeyIndex T"
  "primaryKeyIndex (T\<lparr>m_invisibleTuplesPendingDeleteCount := n\<rparr>) = primaryKeyIndex T"
  "primaryKeyIndex (T\<lparr>m_drIndexCache := c\<rparr>) = primaryKeyIndex T"
  "primaryKeyIndex (T\<lparr>m_data := d\<rparr>) = primaryKeyIndex T"
  by (simp_all add: primaryKeyIndex_def split: option.splits)

lemma table_counts [simp]:
  "tableConsistent (T\<lparr>m_tupleCount := n\<rparr>) = tableConsistent T"
  "tableConsistent (T\<lparr>m_tuplesPinnedByUndo := n\<rparr>) = tableConsistent T"
  "tableConsistent (T\<lparr>m_invisibleTuplesPendingDeleteCount := n\<rparr>) = tableConsistent T"
  "tableConsistent (T\<lparr>m_drIndexCache := c\<rparr>) = tableConsistent T"
  "visibleTuples (T\<lparr>m_tupleCount := n\<rparr>) = visibleTuples T"
  "visibleTuples (T\<lparr>m_tuplesPinnedByUndo := n\<rparr>) = visibleTuples T"
  "visibleTuples (T\<lparr>m_invisibleTuplesPendingDeleteCount := n\<rparr>) = visibleTuples T"
  "visibleTuples (T\<lparr>m_drIndexCache := c\<rparr>) = visibleTuples T"
  "visibleTuples (T\<lparr>m_indexes := ixs\<rparr>) = visibleTuples T"
  "pinnedTuples (T\<lparr>m_tupleCount := n\<rparr>) = pinnedTuples T"
  "pinnedTuples (T\<lparr>m_tuplesPinnedByUndo := n\<rparr>) = pinnedTuples T"
  "pinnedTuples (T\<lparr>m_invisibleTuplesPendingDeleteCount := n\<rparr>) = pinnedTuples T"
  "pinnedTuples (T\<lparr>m_drIndexCache := c\<rparr>) = pinnedTuples T"
  "pinnedTuples (T\<lparr>m_indexes := ixs\<rparr>) = pinnedTuples T"
  "tableShape (T\<lparr>m_tupleCount := n\<rparr>) = tableShape T"
  "tableShape (T\<lparr>m_tuplesPinnedByUndo := n\<rparr>) = tableShape T"
  "tableShape (T\<lparr>m_invisibleTuplesPendingDeleteCount := n\<rparr>) = tableShape T"
  "tableShape (T\<lparr>m_drIndexCache := c\<rparr>) = tableShape T"
  "tableShape (T\<lparr>m_data := d\<rparr>) = tableShape T"
  by (simp_all add: tableConsistent_def visibleTuples_def pinnedTuples_def tableShape_def
        fun_eq_iff)

lemma keys_visibleTuples:
  "set_mset (image_mset (keyOfImage ix) (visibleTuples T)) =
   keyOf ix ` set (filter isVisible (m_data T))"
  by (auto simp: visibleTuples_def keyOf_keyOfImage)

lemma tableConsistent_step:
  assumes tc: "tableConsistent T"
    and shape: "tableShape T' = tableShape T"
    and ic: "\<forall>ix \<in> set (m_indexes T'). indexConsistent (m_data T') ix"
    and uniq: "\<forall>ix \<in> set (m_indexes T). isUniqueIndex ix \<longrightarrow>
          (\<forall>k. count (image_mset (keyOfImage ix) (visibleTuples T')) k \<le> 1)"
    and counted: "\<forall>row \<in># visibleTuples T'.
          length (fst row) = columnCount (m_schema T) \<and>
          length (snd row) = hiddenColumnCount (m_schema T)"
  shows "tableConsistent T'"
proof -
  have u: "\<forall>ix' \<in> set (m_indexes T'). isUniqueIndex ix' \<longrightarrow>
        (\<forall>k. count (image_mset (keyOfImage ix') (visibleTuples T')) k \<le> 1)"
  proof (intro ballI impI allI)
    fix ix' k assume m: "ix' \<in> set (m_indexes T')" and u: "isUniqueIndex ix'"
    from tableShape_member [OF shape m] obtain ix where
      ix: "ix \<in> set (m_indexes T)" "ix'\<lparr>entries := []\<rparr> = ix\<lparr>entries := []\<rparr>" by blast
    have "isUniqueIndex ix" using same_shape_index(1) [OF ix(2)] u by simp
    then have "count (image_mset (keyOfImage ix) (visibleTuples T')) k \<le> 1"
      using uniq ix(1) by simp
    then show "count (image_mset (keyOfImage ix') (visibleTuples T')) k \<le> 1"
      using same_shape_index(2) [OF ix(2)] by simp
  qed
  have sch: "m_schema T' = m_schema T" using shape by (simp add: tableShape_def)
  have c: "\<forall>row \<in># visibleTuples T'.
        length (fst row) = columnCount (m_schema T') \<and>
        length (snd row) = hiddenColumnCount (m_schema T')"
    using counted sch by simp
  have p: "\<forall>pk'. primaryKeyIndex T' = Some pk' \<longrightarrow> isUniqueIndex pk'"
  proof (intro allI impI)
    fix pk' assume "primaryKeyIndex T' = Some pk'"
    from tableShape_primaryKey [OF shape this] obtain pk where
      pk: "primaryKeyIndex T = Some pk" "pk'\<lparr>entries := []\<rparr> = pk\<lparr>entries := []\<rparr>" by blast
    have "isUniqueIndex pk" using tc pk(1) by (simp add: tableConsistent_iff)
    then show "isUniqueIndex pk'" using same_shape_index(1) [OF pk(2)] by simp
  qed
  from ic u c p show ?thesis
    unfolding tableConsistent_iff by blast
qed

lemma tableConsistent_unique:
  "tableConsistent T \<Longrightarrow> ix \<in> set (m_indexes T) \<Longrightarrow> isUniqueIndex ix \<Longrightarrow>
   \<forall>k. count (image_mset (keyOfImage ix) (visibleTuples T)) k \<le> 1"
  by (simp add: tableConsistent_iff)

lemma tableConsistent_rows:
  "tableConsistent T \<Longrightarrow> row \<in># visibleTuples T \<Longrightarrow>
   length (fst row) = columnCount (m_schema T) \<and> length (snd row) = hiddenColumnCount (m_schema T)"
  by (simp add: tableConsistent_iff)

lemma columnsAsCounted_row:
  "columnsAsCounted sch t \<longleftrightarrow>
   length (fst (tupleImage t)) = columnCount sch \<and>
   length (snd (tupleImage t)) = hiddenColumnCount sch"
  by (simp add: columnsAsCounted_def tupleImage_def)

lemma table_add_visible:
  assumes tc: "tableConsistent T"
    and a: "a < length (m_data T)" "\<not> isVisible (m_data T ! a)"
    and t: "isVisible t" "columnsAsCounted (m_schema T) t"
    and free: "\<forall>ix \<in> set (m_indexes T). isUniqueIndex ix \<longrightarrow> uniqueMatchingTuple ix t = None"
    and T': "T' = T\<lparr>m_data := (m_data T)[a := t],
                    m_indexes := map (\<lambda>ix. ix\<lparr>entries := entries ix @ [(keyOf ix t, a)]\<rparr>)
                                   (m_indexes T)\<rparr>"
  shows "tableConsistent T'"
    and "visibleTuples T' = add_mset (tupleImage t) (visibleTuples T)"
    and "tableShape T' = tableShape T"
    and "pinnedTuples T' = (pinnedTuples T)(a := None)"
proof -
  have "visibleTuples (T\<lparr>m_data := (m_data T)[a := t]\<rparr>) = add_mset (tupleImage t) (visibleTuples T)"
    using visibleTuples_setSlot [OF a(1), of t] a(2) t(1) by simp
  then show vis: "visibleTuples T' = add_mset (tupleImage t) (visibleTuples T)"
    by (simp add: T' visibleTuples_def)
  show shape: "tableShape T' = tableShape T"
    by (simp add: T' tableShape_def comp_def)
  have "pinnedTuples (T\<lparr>m_data := (m_data T)[a := t]\<rparr>) = (pinnedTuples T)(a := None)"
    using pinnedTuples_setSlot [OF a(1), of t] t(1) by (simp add: isVisible_def)
  then show "pinnedTuples T' = (pinnedTuples T)(a := None)"
    by (simp add: T' pinnedTuples_def fun_eq_iff)
  have ic: "\<forall>ix \<in> set (m_indexes T'). indexConsistent (m_data T') ix"
  proof
    fix ix' assume "ix' \<in> set (m_indexes T')"
    then obtain ix where ix: "ix \<in> set (m_indexes T)"
        "ix' = ix\<lparr>entries := entries ix @ [(keyOf ix t, a)]\<rparr>"
      by (auto simp: T')
    have "indexConsistent ((m_data T)[a := t]) ix'"
      unfolding ix(2)
      using tableConsistent_index(1) [OF tc ix(1)] a t(1) by (rule indexConsistent_add)
    then show "indexConsistent (m_data T') ix'" by (simp add: T')
  qed
  have uniq: "\<forall>ix \<in> set (m_indexes T). isUniqueIndex ix \<longrightarrow>
          (\<forall>k. count (image_mset (keyOfImage ix) (visibleTuples T')) k \<le> 1)"
  proof (intro ballI impI)
    fix ix assume ix: "ix \<in> set (m_indexes T)" and u: "isUniqueIndex ix"
    have "keyOf ix t \<notin> fst ` set (entries ix)"
      using free ix u by (simp add: uniqueMatchingTuple_None)
    then have "keyOf ix t \<notin> keyOf ix ` set (filter isVisible (m_data T))"
      using indexConsistent_keys [OF tableConsistent_index(1) [OF tc ix]] by simp
    then have "keyOfImage ix (tupleImage t) \<notin># image_mset (keyOfImage ix) (visibleTuples T)"
      unfolding keys_visibleTuples by (simp add: keyOf_keyOfImage)
    from unique_keys_add [OF tableConsistent_unique [OF tc ix u] this]
    show "\<forall>k. count (image_mset (keyOfImage ix) (visibleTuples T')) k \<le> 1"
      unfolding vis .
  qed
  have counted: "\<forall>row \<in># visibleTuples T'.
          length (fst row) = columnCount (m_schema T) \<and>
          length (snd row) = hiddenColumnCount (m_schema T)"
    unfolding vis using t(2) tableConsistent_rows [OF tc]
    by (auto simp: columnsAsCounted_row)
  show "tableConsistent T'"
    using tc shape ic uniq counted by (rule tableConsistent_step)
qed

lemma table_remove_visible:
  assumes tc: "tableConsistent T"
    and a: "a < length (m_data T)" "isVisible (m_data T ! a)"
    and t: "\<not> isVisible t"
    and T': "T' = T\<lparr>m_data := (m_data T)[a := t],
                    m_indexes := map (\<lambda>ix. ix\<lparr>entries :=
                                         remove1 (keyOf ix (m_data T ! a), a) (entries ix)\<rparr>)
                                   (m_indexes T)\<rparr>"
  shows "tableConsistent T'"
    and "add_mset (tupleImage (m_data T ! a)) (visibleTuples T') = visibleTuples T"
    and "tableShape T' = tableShape T"
    and "pinnedTuples T' =
         (pinnedTuples T)
           (a := if isActive t \<and> \<not> isPendingDelete t \<and> isPendingDeleteOnUndoRelease t
                 then Some (tupleImage t) else None)"
proof -
  have "add_mset (tupleImage (m_data T ! a)) (visibleTuples (T\<lparr>m_data := (m_data T)[a := t]\<rparr>)) =
        visibleTuples T"
    using visibleTuples_setSlot [OF a(1), of t] a(2) t by simp
  then show vis: "add_mset (tupleImage (m_data T ! a)) (visibleTuples T') = visibleTuples T"
    by (simp add: T' visibleTuples_def)
  show shape: "tableShape T' = tableShape T"
    by (simp add: T' tableShape_def comp_def)
  show "pinnedTuples T' =
         (pinnedTuples T)
           (a := if isActive t \<and> \<not> isPendingDelete t \<and> isPendingDeleteOnUndoRelease t
                 then Some (tupleImage t) else None)"
    using pinnedTuples_setSlot [OF a(1), of t] by (simp add: T' pinnedTuples_def fun_eq_iff)
  have ic: "\<forall>ix \<in> set (m_indexes T'). indexConsistent (m_data T') ix"
  proof
    fix ix' assume "ix' \<in> set (m_indexes T')"
    then obtain ix where ix: "ix \<in> set (m_indexes T)"
        "ix' = ix\<lparr>entries := remove1 (keyOf ix (m_data T ! a), a) (entries ix)\<rparr>"
      by (auto simp: T')
    have "indexConsistent ((m_data T)[a := t]) ix'"
      unfolding ix(2)
      using tableConsistent_index(1) [OF tc ix(1)] a t by (rule indexConsistent_delete)
    then show "indexConsistent (m_data T') ix'" by (simp add: T')
  qed
  have sub: "visibleTuples T' \<subseteq># visibleTuples T"
    using vis by (metis mset_subset_eq_add_mset_cancel subset_mset.order_refl
        mset_subset_eq_insertD subset_mset.less_imp_le)
  have uniq: "\<forall>ix \<in> set (m_indexes T). isUniqueIndex ix \<longrightarrow>
          (\<forall>k. count (image_mset (keyOfImage ix) (visibleTuples T')) k \<le> 1)"
    using unique_keys_subset [OF tableConsistent_unique [OF tc] sub] by blast
  have counted: "\<forall>row \<in># visibleTuples T'.
          length (fst row) = columnCount (m_schema T) \<and>
          length (snd row) = hiddenColumnCount (m_schema T)"
    using tableConsistent_rows [OF tc] mset_subset_eqD [OF sub] by blast
  show "tableConsistent T'"
    using tc shape ic uniq counted by (rule tableConsistent_step)
qed

lemma table_replace_visible:
  assumes tc: "tableConsistent T"
    and a: "a < length (m_data T)" "isVisible (m_data T ! a)"
    and t: "isVisible t" "columnsAsCounted (m_schema T) t"
    and len: "length ixs' = length (m_indexes T)"
    and ixs: "\<forall>i < length (m_indexes T).
          ixs' ! i = (m_indexes T ! i)\<lparr>entries :=
                       remove1 (keyOf (m_indexes T ! i) (m_data T ! a), a)
                         (entries (m_indexes T ! i)) @ [(keyOf (m_indexes T ! i) t, a)]\<rparr> \<or>
          (ixs' ! i = m_indexes T ! i \<and>
           keyOf (m_indexes T ! i) t = keyOf (m_indexes T ! i) (m_data T ! a))"
    and free: "\<forall>ix \<in> set (m_indexes T). isUniqueIndex ix \<longrightarrow>
          keyOf ix t = keyOf ix (m_data T ! a) \<or> keyOf ix t \<notin> fst ` set (entries ix)"
    and T': "T' = T\<lparr>m_data := (m_data T)[a := t], m_indexes := ixs'\<rparr>"
  shows "tableConsistent T'"
    and "add_mset (tupleImage (m_data T ! a)) (visibleTuples T') =
         add_mset (tupleImage t) (visibleTuples T)"
    and "tableShape T' = tableShape T"
    and "pinnedTuples T' = pinnedTuples T"
proof -
  let ?old = "tupleImage (m_data T ! a)"
  have "add_mset ?old (visibleTuples (T\<lparr>m_data := (m_data T)[a := t]\<rparr>)) =
        add_mset (tupleImage t) (visibleTuples T)"
    using visibleTuples_setSlot [OF a(1), of t] a(2) t(1) by simp
  then show vis: "add_mset ?old (visibleTuples T') = add_mset (tupleImage t) (visibleTuples T)"
    by (simp add: T' visibleTuples_def)
  have "map (\<lambda>index. index\<lparr>entries := []\<rparr>) ixs' = map (\<lambda>index. index\<lparr>entries := []\<rparr>) (m_indexes T)"
  proof (rule nth_equalityI)
    show "length (map (\<lambda>index. index\<lparr>entries := []\<rparr>) ixs') =
          length (map (\<lambda>index. index\<lparr>entries := []\<rparr>) (m_indexes T))"
      using len by simp
    fix i assume "i < length (map (\<lambda>index. index\<lparr>entries := []\<rparr>) ixs')"
    then have i: "i < length (m_indexes T)" using len by simp
    have "(ixs' ! i)\<lparr>entries := []\<rparr> = (m_indexes T ! i)\<lparr>entries := []\<rparr>"
      using ixs i by auto
    then show "map (\<lambda>index. index\<lparr>entries := []\<rparr>) ixs' ! i =
               map (\<lambda>index. index\<lparr>entries := []\<rparr>) (m_indexes T) ! i"
      using i len by simp
  qed
  then show shape: "tableShape T' = tableShape T"
    by (simp add: T' tableShape_def)
  have "pinnedTuples (T\<lparr>m_data := (m_data T)[a := t]\<rparr>) = (pinnedTuples T)(a := None)"
    using pinnedTuples_setSlot [OF a(1), of t] t(1) by (simp add: isVisible_def)
  moreover have "pinnedTuples T a = None"
    using a by (rule pinnedTuples_visible)
  ultimately have "pinnedTuples (T\<lparr>m_data := (m_data T)[a := t]\<rparr>) = pinnedTuples T"
    by (simp add: fun_eq_iff)
  then show "pinnedTuples T' = pinnedTuples T"
    by (simp add: T' pinnedTuples_def fun_eq_iff)
  have ic: "\<forall>ix \<in> set (m_indexes T'). indexConsistent (m_data T') ix"
  proof
    fix ix' assume "ix' \<in> set (m_indexes T')"
    then obtain i where i: "i < length (m_indexes T)" "ix' = ixs' ! i"
      using len by (auto simp: T' in_set_conv_nth)
    have ici: "indexConsistent (m_data T) (m_indexes T ! i)"
      using tableConsistent_index(1) [OF tc] i(1) by simp
    from ixs i(1) have "indexConsistent ((m_data T)[a := t]) (ixs' ! i)"
    proof (elim allE impE disjE conjE)
      show "i < length (m_indexes T)" by (rule i(1))
    next
      assume "ixs' ! i = (m_indexes T ! i)\<lparr>entries :=
                       remove1 (keyOf (m_indexes T ! i) (m_data T ! a), a)
                         (entries (m_indexes T ! i)) @ [(keyOf (m_indexes T ! i) t, a)]\<rparr>"
      then show ?thesis
        using indexConsistent_update [OF ici a t(1)] by simp
    next
      assume "ixs' ! i = m_indexes T ! i"
        "keyOf (m_indexes T ! i) t = keyOf (m_indexes T ! i) (m_data T ! a)"
      then show ?thesis
        using indexConsistent_same_key [OF ici a t(1)] by simp
    qed
    then show "indexConsistent (m_data T') ix'" by (simp add: T' i(2))
  qed
  obtain M where M: "visibleTuples T = add_mset ?old M"
    using a by (metis visibleTuples_member mset_add)
  have vis': "visibleTuples T' = add_mset (tupleImage t) M"
    using vis unfolding M by simp
  have uniq: "\<forall>ix \<in> set (m_indexes T). isUniqueIndex ix \<longrightarrow>
          (\<forall>k. count (image_mset (keyOfImage ix) (visibleTuples T')) k \<le> 1)"
  proof (intro ballI impI)
    fix ix assume ix: "ix \<in> set (m_indexes T)" and u: "isUniqueIndex ix"
    have all: "\<forall>k. count (image_mset (keyOfImage ix) (add_mset ?old M)) k \<le> 1"
      using tableConsistent_unique [OF tc ix u] unfolding M .
    have m: "\<forall>k. count (image_mset (keyOfImage ix) M) k \<le> 1"
      using unique_keys_subset [OF all, of M] by simp
    have "keyOfImage ix (tupleImage t) \<notin># image_mset (keyOfImage ix) M"
    proof (cases "keyOf ix t = keyOf ix (m_data T ! a)")
      case True
      then have "keyOfImage ix (tupleImage t) = keyOfImage ix ?old"
        by (simp add: keyOf_keyOfImage)
      then show ?thesis using unique_keys_notin [OF all] by simp
    next
      case False
      then have "keyOf ix t \<notin> fst ` set (entries ix)"
        using free ix u by blast
      then have "keyOf ix t \<notin> keyOf ix ` set (filter isVisible (m_data T))"
        using indexConsistent_keys [OF tableConsistent_index(1) [OF tc ix]] by simp
      then have "keyOfImage ix (tupleImage t) \<notin>#
                  image_mset (keyOfImage ix) (visibleTuples T)"
        unfolding keys_visibleTuples by (simp add: keyOf_keyOfImage)
      then show ?thesis unfolding M by simp
    qed
    from unique_keys_add [OF m this]
    show "\<forall>k. count (image_mset (keyOfImage ix) (visibleTuples T')) k \<le> 1"
      unfolding vis' .
  qed
  have counted: "\<forall>row \<in># visibleTuples T'.
          length (fst row) = columnCount (m_schema T) \<and>
          length (snd row) = hiddenColumnCount (m_schema T)"
    unfolding vis' using t(2) tableConsistent_rows [OF tc] unfolding M
    by (auto simp: columnsAsCounted_row)
  show "tableConsistent T'"
    using tc shape ic uniq counted by (rule tableConsistent_step)
qed

section \<open>Theorems: how an insert ends\<close>

lemma recordAppended_cong:
  assumes "currentUniqueId E1 = currentUniqueId E"
    and "isActiveActiveDREnabled E1 = isActiveActiveDREnabled E"
    and "m_indexes (table E1) = m_indexes (table E)"
    and "m_drIndexCache (table E1) = m_drIndexCache (table E)"
  shows "recordAppended codec E1 ty ts s = recordAppended codec E ty ts s"
  using assms by (simp add: recordAppended_def)

lemma drEmits_same:
  "drStream E1 = drStream E \<Longrightarrow> m_isMaterialized (table E1) = m_isMaterialized (table E) \<Longrightarrow>
   m_drEnabled (table E1) = m_drEnabled (table E) \<Longrightarrow> drEmits E1 = drEmits E"
  by (simp add: drEmits_def cong: option.case_cong)

lemma drAppend_recorded:
  assumes app: "drAppend codec E1 True ty ts = (out, mark, E2)"
    and str: "drStream E1 = drStream E"
    and ids: "currentUniqueId E1 = currentUniqueId E"
             "isActiveActiveDREnabled E1 = isActiveActiveDREnabled E"
    and ixs: "m_indexes (table E1) = m_indexes (table E)"
             "m_drIndexCache (table E1) = m_drIndexCache (table E)"
    and flags: "m_isMaterialized (table E1) = m_isMaterialized (table E)"
               "m_drEnabled (table E1) = m_drEnabled (table E)"
  shows "(out = Returned \<and> recorded codec E (ty, ts) mark (drStream E2)) \<or>
         (out = TupleStreamException \<and> drEmits E \<and>
          (\<exists>s. drStream E = Some s \<and>
               drStream E2 = Some (transactionBegun codec (currentUniqueId E) s)))"
proof (cases "drEmits E")
  case True
  then have e1: "drEmits E1"
    using drEmits_same [OF str flags] by simp
  from True obtain s where s: "drStream E = Some s"
    by (auto simp: drEmits_def split: option.splits)
  then have s1: "drStream E1 = Some s" using str by simp
  note rc = recordAppended_cong [OF ids ixs, of codec ty ts s]
  from drAppend_emits [OF e1 s1 app] show ?thesis
    using True s rc ids by (auto simp: recorded_def)
next
  case False
  then have e1: "\<not> drEmits E1"
    using drEmits_same [OF str flags] by simp
  from drAppend_silent [OF e1 app] show ?thesis
    using False str by (simp add: recorded_def)
qed

lemma table_extend:
  assumes tc: "tableConsistent T" and c: "\<not> isActive c"
  shows "tableConsistent (T\<lparr>m_data := m_data T @ [c]\<rparr>)"
    and "visibleTuples (T\<lparr>m_data := m_data T @ [c]\<rparr>) = visibleTuples T"
    and "pinnedTuples (T\<lparr>m_data := m_data T @ [c]\<rparr>) = pinnedTuples T"
proof -
  have v: "\<not> isVisible c" using c by simp
  show "visibleTuples (T\<lparr>m_data := m_data T @ [c]\<rparr>) = visibleTuples T"
    using v by (simp add: visibleTuples_def)
  show "pinnedTuples (T\<lparr>m_data := m_data T @ [c]\<rparr>) = pinnedTuples T"
    using c by (auto simp: pinnedTuples_def fun_eq_iff nth_append less_Suc_eq)
  have "list_all (indexConsistent (m_data T @ [c])) (m_indexes T)"
    using tc indexConsistent_append [OF _ v]
    by (auto simp: tableConsistent_def list_all_iff)
  then show "tableConsistent (T\<lparr>m_data := m_data T @ [c]\<rparr>)"
    using tc v by (auto simp: tableConsistent_def list_all_iff)
qed

lemma table_hidden_slot:
  assumes tc: "tableConsistent T"
    and a: "a < length (m_data T)" "\<not> isVisible (m_data T ! a)"
    and t: "\<not> isVisible t"
  shows "tableConsistent (T\<lparr>m_data := (m_data T)[a := t]\<rparr>)"
    and "visibleTuples (T\<lparr>m_data := (m_data T)[a := t]\<rparr>) = visibleTuples T"
    and "filter isVisible ((m_data T)[a := t]) = filter isVisible (m_data T)"
proof -
  show f: "filter isVisible ((m_data T)[a := t]) = filter isVisible (m_data T)"
    using a t by (intro filter_update_hidden) simp_all
  then show "visibleTuples (T\<lparr>m_data := (m_data T)[a := t]\<rparr>) = visibleTuples T"
    by (simp add: visibleTuples_def)
  have "list_all (indexConsistent ((m_data T)[a := t])) (m_indexes T)"
    using tc indexConsistent_hidden [OF _ a t]
    by (auto simp: tableConsistent_def list_all_iff)
  then show "tableConsistent (T\<lparr>m_data := (m_data T)[a := t]\<rparr>)"
    using tc f by (auto simp: tableConsistent_def list_all_iff)
qed

subsection \<open>The loop rolled back\<close>

lemma tryInsertOnAllIndexes_restores:
  assumes "tryInsertOnAllIndexes
             (map (\<lambda>ix. ix\<lparr>entries := entries ix @ [(keyOf ix t, a)]\<rparr>) orig) rest t a =
           (Some c, ixs')"
    and "\<forall>ix \<in> set orig \<union> set rest. a \<notin> snd ` set (entries ix)"
  shows "ixs' = orig @ rest"
  using assms
proof (induction rest arbitrary: orig)
  case Nil
  then show ?case by simp
next
  case (Cons index rest)
  show ?case
  proof (cases "addEntry index t a")
    case (Inl c')
    have "map (deleteEntryIfPresent t a)
        (map (\<lambda>ix. ix\<lparr>entries := entries ix @ [(keyOf ix t, a)]\<rparr>) orig) = orig"
      using Cons.prems(2) by (simp add: map_idI deleteEntryIfPresent_added)
    then show ?thesis using Cons.prems(1) Inl by simp
  next
    case (Inr index')
    then have index': "index' = index\<lparr>entries := entries index @ [(keyOf index t, a)]\<rparr>"
      by (simp add: addEntry_Inr)
    have "tryInsertOnAllIndexes
             (map (\<lambda>ix. ix\<lparr>entries := entries ix @ [(keyOf ix t, a)]\<rparr>) (orig @ [index]))
             rest t a = (Some c, ixs')"
      using Cons.prems(1) Inr index' by simp
    from Cons.IH [OF this] Cons.prems(2) show ?thesis by simp
  qed
qed


lemma insertTupleCommon_cases:
  assumes run: "insertTupleCommon codec E a True True = (out, E')"
    and a: "a < length (m_data (table E))"
    and free: "\<forall>ix \<in> set (m_indexes (table E)). a \<notin> snd ` set (entries ix)"
    and wf: "\<forall>s. drStream E = Some s \<longrightarrow> streamWellFormed s"
    and r0: "r0 = (if hasDRTimestampColumn (table E)
                   then setDRTimestampForTuple (currentDRTimestamp E) (m_data (table E) ! a) False
                   else m_data (table E) ! a)"
  shows "\<exists>t cache str mark.
       E' = E\<lparr>table := (table E)
                 \<lparr>m_data := (m_data (table E))[a := t],
                  m_indexes := (if out = Returned
                                then map (\<lambda>ix. ix\<lparr>entries := entries ix @ [(keyOf ix t, a)]\<rparr>)
                                       (m_indexes (table E))
                                else m_indexes (table E)),
                  m_drIndexCache := cache\<rparr>,
               drStream := str,
               currentUndoQuantum :=
                 (if out = Returned
                  then map_option ((#) (PersistentTableUndoInsertAction t mark))
                         (currentUndoQuantum E)
                  else currentUndoQuantum E)\<rparr> \<and>
       (((\<exists>c x. out = ConstraintFailureException c x) \<and>
         map_option streamView str = map_option streamView (drStream E)) \<or>
        (out = TupleStreamException \<and> drEmits E \<and>
         (\<exists>s. drStream E = Some s \<and>
              str = Some (transactionBegun codec (currentUniqueId E) s))) \<or>
        (out = Returned \<and> isVisible t \<and> tupleImage t = tupleImage r0 \<and>
         recorded codec E (DR_RECORD_INSERT, [r0]) mark str \<and>
         (\<forall>ix \<in> set (m_indexes (table E)).
            isUniqueIndex ix \<longrightarrow> uniqueMatchingTuple ix t = None)))"
proof (cases "\<not> checkNulls (table E) (m_data (table E) ! a)")
  case True
  then have "insertTupleCommon codec E a True True =
        (ConstraintFailureException CONSTRAINT_TYPE_NOT_NULL None, E)"
    by (simp add: insertTupleCommon_def)
  then have "out = ConstraintFailureException CONSTRAINT_TYPE_NOT_NULL None" "E' = E"
    using run by simp_all
  moreover have "E = E\<lparr>table := (table E)\<lparr>m_data := (m_data (table E))[a := m_data (table E) ! a],
                                       m_indexes := m_indexes (table E),
                                       m_drIndexCache := m_drIndexCache (table E)\<rparr>,
                    drStream := drStream E, currentUndoQuantum := currentUndoQuantum E\<rparr>"
    by simp
  ultimately show ?thesis by (intro exI [of _ "m_data (table E) ! a"] exI [of _ "m_drIndexCache (table E)"]
      exI [of _ "drStream E"] exI [of _ 0]) auto
next
  case False
  then have nonull: "checkNulls (table E) (m_data (table E) ! a)" by simp
  define E1 where "E1 = (if hasDRTimestampColumn (table E)
                  then E\<lparr>table := setSlot (table E) a
                         (setDRTimestampForTuple (currentDRTimestamp E)
                            (m_data (table E) ! a) False)\<rparr>
                  else E)"
  have t1: "E1 = E\<lparr>table := (table E)\<lparr>m_data := (m_data (table E))[a := r0]\<rparr>\<rparr>"
    by (simp add: E1_def r0 setSlot_def)
  have slot1: "m_data (table E1) ! a = r0"
    using a by (simp add: t1)
  obtain o1 mark E2 where app: "drAppend codec E1 True DR_RECORD_INSERT [r0] = (o1, mark, E2)"
    by (metis prod_cases3)
  obtain cache str where
    E2: "E2 = E1\<lparr>table := (table E1)\<lparr>m_drIndexCache := cache\<rparr>, drStream := str\<rparr>"
    using drAppend_engine [OF app] by blast
  have rec: "(o1 = Returned \<and> recorded codec E (DR_RECORD_INSERT, [r0]) mark (drStream E2)) \<or>
         (o1 = TupleStreamException \<and> drEmits E \<and>
          (\<exists>s. drStream E = Some s \<and>
               drStream E2 = Some (transactionBegun codec (currentUniqueId E) s)))"
    by (rule drAppend_recorded [OF app]) (simp_all add: t1)
  show ?thesis
  proof (cases "o1 = Returned")
    case False
    then have res: "out = o1" "E' = E2"
      using run nonull app slot1 by (simp_all add: insertTupleCommon_def E1_def [symmetric] Let_def)
    have tse: "out = TupleStreamException" "drEmits E"
      "\<exists>s. drStream E = Some s \<and> str = Some (transactionBegun codec (currentUniqueId E) s)"
      using rec False res by (auto simp: E2)
    have "E' = E\<lparr>table := (table E)\<lparr>m_data := (m_data (table E))[a := r0],
                                       m_indexes := m_indexes (table E),
                                       m_drIndexCache := cache\<rparr>,
                    drStream := str, currentUndoQuantum := currentUndoQuantum E\<rparr>"
      by (simp add: res E2 t1)
    then show ?thesis
      using tse by (intro exI [of _ r0] exI [of _ cache] exI [of _ str] exI [of _ 0]) auto
  next
    case o1: True
    define t where "t = (m_data (table E2) ! a)
                           \<lparr>isActive := True, isPendingDelete := False,
                            isPendingDeleteOnUndoRelease := False\<rparr>"
    define t' where "t' = (if streamerSays (table E2) notifyTupleInsert a then t
                           else t\<lparr>isDirty := False\<rparr>)"
    define T3 where "T3 = setSlot (table E2) a t'"
    have slot2: "m_data (table E2) ! a = r0"
      using a by (simp add: E2 t1)
    have vis: "isVisible t'" "tupleImage t' = tupleImage r0"
      by (simp_all add: t'_def t_def isVisible_def tupleImage_def slot2)
    have ixs: "m_indexes T3 = m_indexes (table E)"
      by (simp add: T3_def setSlot_def E2 t1)
    obtain r ixs' where tryI: "tryInsertOnAllIndexes [] (m_indexes T3) t' a = (r, ixs')"
      by (cases "tryInsertOnAllIndexes [] (m_indexes T3) t' a")
    have res: "insertTupleCommon codec E a True True =
      (case r of
         Some conflict \<Rightarrow>
           (ConstraintFailureException CONSTRAINT_TYPE_UNIQUE (Some conflict),
            DRRollback (E2\<lparr>table := T3\<lparr>m_indexes := ixs'\<rparr>\<rparr>) mark
              (rowCostForDRRecord codec DR_RECORD_INSERT))
       | None \<Rightarrow>
           (Returned,
            registerUndoAction (E2\<lparr>table := T3\<lparr>m_indexes := ixs'\<rparr>\<rparr>)
                   (PersistentTableUndoInsertAction t' mark)))"
    proof (cases "streamerSays (table E2) notifyTupleInsert a")
      case True
      then show ?thesis
        using nonull app o1 tryI slot1
        by (cases r)
           (simp_all add: insertTupleCommon_def E1_def [symmetric] Let_def t_def t'_def T3_def)
    next
      case False
      then show ?thesis
        using nonull app o1 tryI slot1
        by (cases r)
           (simp_all add: insertTupleCommon_def E1_def [symmetric] Let_def t_def t'_def T3_def)
    qed
    show ?thesis
    proof (cases r)
      case (Some c)
      have "tryInsertOnAllIndexes
             (map (\<lambda>ix. ix\<lparr>entries := entries ix @ [(keyOf ix t', a)]\<rparr>) [])
             (m_indexes T3) t' a = (Some c, ixs')"
        using tryI Some by simp
      from tryInsertOnAllIndexes_restores [OF this]
      have ixs': "ixs' = m_indexes (table E)"
        using free ixs by simp
      have out: "out = ConstraintFailureException CONSTRAINT_TYPE_UNIQUE (Some c)"
        and E': "E' = DRRollback (E2\<lparr>table := T3\<lparr>m_indexes := ixs'\<rparr>\<rparr>) mark
                      (rowCostForDRRecord codec DR_RECORD_INSERT)"
        using run res Some by simp_all
      define str' where "str' = drStream E'"
      have "map_option streamView (drStream E') = map_option streamView (drStream E1)"
        unfolding E'
        by (rule DRRollback_drAppend [OF app [unfolded o1]])
           (use wf in \<open>simp_all add: T3_def setSlot_def E2 t1\<close>)
      then have view: "map_option streamView str' = map_option streamView (drStream E)"
        by (simp add: t1 str'_def)
      have eng: "E' = E\<lparr>table := (table E)\<lparr>m_data := (m_data (table E))[a := t'],
                                       m_indexes := m_indexes (table E),
                                       m_drIndexCache := cache\<rparr>,
                    drStream := str', currentUndoQuantum := currentUndoQuantum E\<rparr>"
        unfolding str'_def E' by (simp add: DRRollback_def T3_def setSlot_def E2 t1 ixs')
      show ?thesis
        using out view eng
        by (intro exI [of _ t'] exI [of _ cache] exI [of _ str'] exI [of _ 0]) simp
    next
      case None
      have ixs': "ixs' = map (\<lambda>ix. ix\<lparr>entries := entries ix @ [(keyOf ix t', a)]\<rparr>)
                          (m_indexes (table E))"
        using tryInsertOnAllIndexes_none [OF tryI [unfolded None]] ixs by simp
      have nc: "\<forall>ix \<in> set (m_indexes (table E)).
                  isUniqueIndex ix \<longrightarrow> uniqueMatchingTuple ix t' = None"
        using tryInsertOnAllIndexes_none_unique [OF tryI [unfolded None]] ixs by simp
      have out: "out = Returned"
        and E': "E' = registerUndoAction (E2\<lparr>table := T3\<lparr>m_indexes := ixs'\<rparr>\<rparr>)
                   (PersistentTableUndoInsertAction t' mark)"
        using run res None by simp_all
      have eng: "E' = E\<lparr>table := (table E)\<lparr>m_data := (m_data (table E))[a := t'],
                                       m_indexes := ixs',
                                       m_drIndexCache := cache\<rparr>,
                    drStream := str,
                    currentUndoQuantum :=
                      map_option ((#) (PersistentTableUndoInsertAction t' mark))
                        (currentUndoQuantum E)\<rparr>"
        unfolding E' by (simp add: registerUndoAction_def T3_def setSlot_def E2 t1)
      have "recorded codec E (DR_RECORD_INSERT, [r0]) mark str"
        using rec o1 by (simp add: E2)
      then show ?thesis
        using out eng vis nc unfolding ixs'
        by (intro exI [of _ t'] exI [of _ cache] exI [of _ str] exI [of _ mark]) simp
    qed
  qed
qed

lemma recorded_cong:
  assumes "drStream E1 = drStream E"
    and "currentUniqueId E1 = currentUniqueId E"
        "isActiveActiveDREnabled E1 = isActiveActiveDREnabled E"
    and "m_indexes (table E1) = m_indexes (table E)"
        "m_drIndexCache (table E1) = m_drIndexCache (table E)"
    and "m_isMaterialized (table E1) = m_isMaterialized (table E)"
        "m_drEnabled (table E1) = m_drEnabled (table E)"
  shows "recorded codec E1 r mark str = recorded codec E r mark str"
  using drEmits_same [OF assms(1,6,7)] recordAppended_cong [OF assms(2-5), of codec]
  by (simp add: recorded_def assms(1) cong: option.case_cong)

lemma nextFreeTuple_consistent:
  assumes nf: "nextFreeTuple T = (a, T1)" and tc: "tableConsistent T"
  shows "tableConsistent T1" "visibleTuples T1 = visibleTuples T"
    "pinnedTuples T1 = pinnedTuples T" "tableShape T1 = tableShape T"
proof -
  have T1: "T1 = T\<lparr>m_data := (if a < length (m_data T) then m_data T
                                 else m_data T @ [clearedSlot]),
                     m_tupleCount := m_tupleCount T + 1\<rparr>"
    using nf by (auto simp: nextFreeTuple_result)
  have c: "\<not> isActive clearedSlot" by (simp add: clearedSlot_def)
  show "tableConsistent T1" "visibleTuples T1 = visibleTuples T"
    "pinnedTuples T1 = pinnedTuples T" "tableShape T1 = tableShape T"
    using table_extend [OF tc c] tc by (simp_all add: T1)
qed

lemma setDRTimestampForTuple_counted [simp]:
  "columnsAsCounted sch (setDRTimestampForTuple ts t b) = columnsAsCounted sch t"
  by (simp add: setDRTimestampForTuple_def columnsAsCounted_def)

lemma copyForPersistentInsert_counted:
  assumes "copyForPersistentInsert next source = (stored, next')"
  shows "columnsAsCounted sch stored = columnsAsCounted sch source"
proof -
  have "length (map getValue (columns stored)) = length (map getValue (columns source))"
    using copyForPersistentInsert_values(1) [OF assms] by simp
  then show ?thesis
    using copyForPersistentInsert_values(2) [OF assms] by (simp add: columnsAsCounted_def)
qed

lemma insertPersistentTuple_cases:
  assumes run: "insertPersistentTuple codec E source True = (out, E')"
    and tc: "tableConsistent (table E)"
    and wf: "\<forall>s. drStream E = Some s \<longrightarrow> streamWellFormed s"
    and counted: "columnsAsCounted (m_schema (table E)) source"
  shows "tableConsistent (table E') \<and> tableShape (table E') = tableShape (table E) \<and>
     pinnedTuples (table E') = pinnedTuples (table E) \<and>
     (((\<exists>c x. out = ConstraintFailureException c x) \<and>
       map_option streamView (drStream E') = map_option streamView (drStream E) \<and>
       m_indexes (table E') = m_indexes (table E) \<and>
       visibleTuples (table E') = visibleTuples (table E) \<and>
       currentUndoQuantum E' = currentUndoQuantum E) \<or>
      (out = TupleStreamException \<and> drEmits E \<and>
       (\<exists>s. drStream E = Some s \<and>
            drStream E' = Some (transactionBegun codec (currentUniqueId E) s)) \<and>
       m_indexes (table E') = m_indexes (table E) \<and>
       visibleTuples (table E') = visibleTuples (table E) \<and>
       currentUndoQuantum E' = currentUndoQuantum E) \<or>
      (out = Returned \<and>
       (\<exists>t mark.
          currentUndoQuantum E' =
            map_option ((#) (PersistentTableUndoInsertAction t mark)) (currentUndoQuantum E) \<and>
          tupleImage t = tupleImage (hd (snd (recordOf E (InsertTuple source)))) \<and>
          recorded codec E (recordOf E (InsertTuple source)) mark (drStream E') \<and>
          visibleTuples (table E') = add_mset (tupleImage t) (visibleTuples (table E)))))"
proof (cases "m_tupleLimit (table E) \<le> visibleTupleCount (table E)")
  case True
  then have "insertPersistentTuple codec E source True =
        (ConstraintFailureException CONSTRAINT_TYPE_ROW_LIMIT None, E)"
    by (simp add: insertPersistentTuple_def)
  then have "out = ConstraintFailureException CONSTRAINT_TYPE_ROW_LIMIT None" "E' = E"
    using run by simp_all
  then show ?thesis using tc by simp
next
  case False
  then have nolimit: "\<not> (True \<and> m_tupleLimit (table E) \<le> visibleTupleCount (table E))"
    by simp
  obtain a T1 where nf: "nextFreeTuple (table E) = (a, T1)"
    by (cases "nextFreeTuple (table E)")
  obtain stored nxt where cp: "copyForPersistentInsert (nextObject E) source = (stored, nxt)"
    by (cases "copyForPersistentInsert (nextObject E) source")
  define E0 where "E0 = E\<lparr>table := setSlot T1 a stored, nextObject := nxt\<rparr>"
  obtain o1 Ec where common: "insertTupleCommon codec E0 a True True = (o1, Ec)"
    by (cases "insertTupleCommon codec E0 a True True")
  note unf = insertPersistentTuple_unfold [OF nolimit nf cp common [unfolded E0_def]]
  have o1: "o1 = out"
    and E': "E' = (if out = Returned \<or> out = FatalException \<or> out = AssertionFailed then Ec
                   else Ec\<lparr>table := deleteTupleStorage (table Ec) a\<rparr>)"
    using unf run by simp_all
  note slot = nextFreeTuple_slot [OF nf]
  note cons = nextFreeTuple_consistent [OF nf tc]
  have T1: "T1 = (table E)\<lparr>m_data := m_data T1, m_tupleCount := m_tupleCount (table E) + 1\<rparr>"
    using nf by (auto simp: nextFreeTuple_result)
  have ixs1: "m_indexes T1 = m_indexes (table E)"
    by (subst T1) simp
  have sch1: "m_schema T1 = m_schema (table E)"
    by (subst T1) simp
  have cache1: "m_drIndexCache T1 = m_drIndexCache (table E)"
    by (subst T1) simp
  have flags1: "m_isMaterialized T1 = m_isMaterialized (table E)"
      "m_drEnabled T1 = m_drEnabled (table E)"
    by (subst T1, simp)+
  have hidden: "\<not> isVisible (m_data T1 ! a)" using slot(2) by simp
  have free: "\<forall>ix \<in> set (m_indexes (table E0)). a \<notin> snd ` set (entries ix)"
  proof
    fix ix assume "ix \<in> set (m_indexes (table E0))"
    then have "ix \<in> set (m_indexes T1)" by (simp add: E0_def setSlot_def)
    from tableConsistent_index(1) [OF cons(1) this]
    show "a \<notin> snd ` set (entries ix)"
      by (rule indexConsistent_no_entry) (simp add: hidden)
  qed
  define r0 where "r0 = (if hasDRTimestampColumn (table E0)
                   then setDRTimestampForTuple (currentDRTimestamp E0) (m_data (table E0) ! a) False
                   else m_data (table E0) ! a)"
  have r0: "snd (recordOf E (InsertTuple source)) = [r0]"
      "recordOf E (InsertTuple source) = (DR_RECORD_INSERT, [r0])"
    using slot(1) cp sch1
    by (simp_all add: r0_def E0_def setSlot_def hasDRTimestampColumn_def)
  have r0c: "columnsAsCounted (m_schema T1) r0"
    using slot(1) counted copyForPersistentInsert_counted [OF cp, of "m_schema (table E)"] sch1
    by (simp add: r0_def E0_def setSlot_def)
  have "\<exists>t cache str mark.
       Ec = E0\<lparr>table := (table E0)
                 \<lparr>m_data := (m_data (table E0))[a := t],
                  m_indexes := (if o1 = Returned
                                then map (\<lambda>ix. ix\<lparr>entries := entries ix @ [(keyOf ix t, a)]\<rparr>)
                                       (m_indexes (table E0))
                                else m_indexes (table E0)),
                  m_drIndexCache := cache\<rparr>,
               drStream := str,
               currentUndoQuantum :=
                 (if o1 = Returned
                  then map_option ((#) (PersistentTableUndoInsertAction t mark))
                         (currentUndoQuantum E0)
                  else currentUndoQuantum E0)\<rparr> \<and>
       (((\<exists>c x. o1 = ConstraintFailureException c x) \<and>
         map_option streamView str = map_option streamView (drStream E0)) \<or>
        (o1 = TupleStreamException \<and> drEmits E0 \<and>
         (\<exists>s. drStream E0 = Some s \<and>
              str = Some (transactionBegun codec (currentUniqueId E0) s))) \<or>
        (o1 = Returned \<and> isVisible t \<and> tupleImage t = tupleImage r0 \<and>
         recorded codec E0 (DR_RECORD_INSERT, [r0]) mark str \<and>
         (\<forall>ix \<in> set (m_indexes (table E0)).
            isUniqueIndex ix \<longrightarrow> uniqueMatchingTuple ix t = None)))"
  proof (rule insertTupleCommon_cases [OF common _ free _ r0_def])
    show "a < length (m_data (table E0))" using slot(1) by (simp add: E0_def setSlot_def)
    show "\<forall>s. drStream E0 = Some s \<longrightarrow> streamWellFormed s"
      using wf by (simp add: E0_def)
  qed
  then obtain t cache str mark where
    Ec: "Ec = E0\<lparr>table := (table E0)
                 \<lparr>m_data := (m_data (table E0))[a := t],
                  m_indexes := (if o1 = Returned
                                then map (\<lambda>ix. ix\<lparr>entries := entries ix @ [(keyOf ix t, a)]\<rparr>)
                                       (m_indexes (table E0))
                                else m_indexes (table E0)),
                  m_drIndexCache := cache\<rparr>,
               drStream := str,
               currentUndoQuantum :=
                 (if o1 = Returned
                  then map_option ((#) (PersistentTableUndoInsertAction t mark))
                         (currentUndoQuantum E0)
                  else currentUndoQuantum E0)\<rparr>"
    and alt: "((\<exists>c x. o1 = ConstraintFailureException c x) \<and>
         map_option streamView str = map_option streamView (drStream E0)) \<or>
        (o1 = TupleStreamException \<and> drEmits E0 \<and>
         (\<exists>s. drStream E0 = Some s \<and>
              str = Some (transactionBegun codec (currentUniqueId E0) s))) \<or>
        (o1 = Returned \<and> isVisible t \<and> tupleImage t = tupleImage r0 \<and>
         recorded codec E0 (DR_RECORD_INSERT, [r0]) mark str \<and>
         (\<forall>ix \<in> set (m_indexes (table E0)).
            isUniqueIndex ix \<longrightarrow> uniqueMatchingTuple ix t = None))"
    by blast
  have em: "drEmits E0 = drEmits E"
    by (rule drEmits_same) (simp_all add: E0_def setSlot_def flags1)
  have rc: "recorded codec E0 r mark str = recorded codec E r mark str" for r
    by (rule recorded_cong) (simp_all add: E0_def setSlot_def flags1 ixs1 cache1)
  show ?thesis
  proof (cases "out = Returned")
    case True
    then have ret: "isVisible t" "tupleImage t = tupleImage r0"
        "recorded codec E (DR_RECORD_INSERT, [r0]) mark str"
        "\<forall>ix \<in> set (m_indexes T1). isUniqueIndex ix \<longrightarrow> uniqueMatchingTuple ix t = None"
      using alt o1 rc by (auto simp: E0_def setSlot_def)
    define T' where "T' = T1\<lparr>m_data := (m_data T1)[a := t],
                    m_indexes := map (\<lambda>ix. ix\<lparr>entries := entries ix @ [(keyOf ix t, a)]\<rparr>)
                                   (m_indexes T1)\<rparr>"
    have tct: "columnsAsCounted (m_schema T1) t"
      using r0c columnsAsCounted_image [OF ret(2)] by simp
    note add = table_add_visible [OF cons(1) slot(1) hidden ret(1) tct ret(4) T'_def]
    have tab: "table E' = T'\<lparr>m_drIndexCache := cache\<rparr>"
      using True o1 by (simp add: E' Ec E0_def setSlot_def T'_def)
    have "pinnedTuples T1 a = None"
      using slot(2) by (intro pinnedTuples_inactive) simp
    then have pin: "pinnedTuples T' = pinnedTuples T1"
      using add(4) by (simp add: fun_eq_iff)
    have q: "currentUndoQuantum E' =
            map_option ((#) (PersistentTableUndoInsertAction t mark)) (currentUndoQuantum E)"
        "drStream E' = str"
      using True o1 by (simp_all add: E' Ec E0_def)
    have pre: "tableConsistent (table E') \<and> tableShape (table E') = tableShape (table E) \<and>
        pinnedTuples (table E') = pinnedTuples (table E)"
      using add(1,3) pin cons(3,4) by (simp add: tab)
    have "currentUndoQuantum E' =
            map_option ((#) (PersistentTableUndoInsertAction t mark)) (currentUndoQuantum E) \<and>
          tupleImage t = tupleImage (hd (snd (recordOf E (InsertTuple source)))) \<and>
          recorded codec E (recordOf E (InsertTuple source)) mark (drStream E') \<and>
          visibleTuples (table E') = add_mset (tupleImage t) (visibleTuples (table E))"
      using add(2) cons(2) q ret(2,3) unfolding r0 by (simp add: tab)
    then show ?thesis
      using True pre by blast
  next
    case False
    then have failed: "((\<exists>c x. out = ConstraintFailureException c x) \<and>
         map_option streamView str = map_option streamView (drStream E)) \<or>
        (out = TupleStreamException \<and> drEmits E \<and>
         (\<exists>s. drStream E = Some s \<and>
              str = Some (transactionBegun codec (currentUniqueId E) s)))"
      using alt o1 em by (auto simp: E0_def)
    then have nf: "\<not> (out = Returned \<or> out = FatalException \<or> out = AssertionFailed)"
      by auto
    let ?gone = "t\<lparr>isActive := False, isPendingDelete := False,
                  isPendingDeleteOnUndoRelease := False\<rparr>"
    have g: "\<not> isVisible ?gone" by simp
    have tab: "table E' = (T1\<lparr>m_data := (m_data T1)[a := ?gone]\<rparr>)
                 \<lparr>m_drIndexCache := cache, m_tupleCount := m_tupleCount T1 - 1\<rparr>"
      using nf False o1 slot(1) by (simp add: E' Ec E0_def setSlot_def deleteTupleStorage_def)
    note hid = table_hidden_slot [OF cons(1) slot(1) hidden g]
    have "pinnedTuples T1 a = None"
      using slot(2) by (intro pinnedTuples_inactive) simp
    then have pin: "pinnedTuples (T1\<lparr>m_data := (m_data T1)[a := ?gone]\<rparr>) = pinnedTuples T1"
      using pinnedTuples_setSlot [OF slot(1), of ?gone] by (simp add: fun_eq_iff)
    have q: "currentUndoQuantum E' = currentUndoQuantum E" "drStream E' = str"
        "m_indexes (table E') = m_indexes (table E)"
      using nf False o1 by (simp_all add: E' Ec E0_def setSlot_def deleteTupleStorage_def ixs1)
    show ?thesis
      using False failed hid(1,2) pin cons(2,3,4) q
      by (auto simp: tab)
  qed
qed

section \<open>Theorems: the index loops of an update\<close>

lemma checkUpdateOnUniqueIndexes_iff:
  "checkUpdateOnUniqueIndexes ixs target source ps \<longleftrightarrow>
   (\<forall>p \<in> set ps. \<not> (isUniqueIndex (ixs ! p) \<and> checkForIndexChange (ixs ! p) target source \<and>
                        existsKey (ixs ! p) source))"
  by (induction ps) auto

lemma removeFromIndexesToUpdate_ok:
  assumes "distinct ps" "\<forall>p \<in> set ps. p < length cur"
    and "\<forall>p \<in> set ps. (keyOf (cur ! p) target, a) \<in> set (entries (cur ! p))"
  shows "removeFromIndexesToUpdate cur ps target source a =
     (True,
      map (\<lambda>i. if i \<in> set ps \<and>
                  (keyUsesNonInlinedMemory (cur ! i) \<or> checkForIndexChange (cur ! i) target source)
               then (cur ! i)\<lparr>entries := remove1 (keyOf (cur ! i) target, a) (entries (cur ! i))\<rparr>
               else cur ! i) [0..<length cur],
      map (\<lambda>p. keyUsesNonInlinedMemory (cur ! p) \<or> checkForIndexChange (cur ! p) target source) ps)"
  using assms
proof (induction ps arbitrary: cur)
  case Nil
  show ?case by (simp add: map_nth)
next
  case (Cons p rest)
  let ?R = "\<lambda>ix. keyUsesNonInlinedMemory ix \<or> checkForIndexChange ix target source"
  let ?del = "\<lambda>ix. ix\<lparr>entries := remove1 (keyOf ix target, a) (entries ix)\<rparr>"
  have p: "p < length cur" "p \<notin> set rest" "distinct rest"
    using Cons.prems by simp_all
  show ?case
  proof (cases "?R (cur ! p)")
    case False
    have ih: "removeFromIndexesToUpdate cur rest target source a =
        (True, map (\<lambda>i. if i \<in> set rest \<and> ?R (cur ! i) then ?del (cur ! i) else cur ! i)
                 [0..<length cur],
         map (\<lambda>p. ?R (cur ! p)) rest)"
      using Cons.prems by (intro Cons.IH) simp_all
    have "map (\<lambda>i. if i \<in> set rest \<and> ?R (cur ! i) then ?del (cur ! i) else cur ! i)
            [0..<length cur] =
          map (\<lambda>i. if i \<in> set (p # rest) \<and> ?R (cur ! i) then ?del (cur ! i) else cur ! i)
            [0..<length cur]"
      using False by (intro map_cong) auto
    then show ?thesis using False ih by simp
  next
    case True
    let ?cur' = "cur[p := ?del (cur ! p)]"
    have del: "deleteEntry (cur ! p) target a = Some (?del (cur ! p))"
      using Cons.prems(3) by (simp add: deleteEntry_def)
    have same: "?cur' ! q = cur ! q" if "q \<in> set rest" for q
    proof -
      have "p \<noteq> q" using that p(2) by blast
      then show ?thesis by simp
    qed
    have ih: "removeFromIndexesToUpdate ?cur' rest target source a =
        (True, map (\<lambda>i. if i \<in> set rest \<and> ?R (?cur' ! i) then ?del (?cur' ! i) else ?cur' ! i)
                 [0..<length ?cur'],
         map (\<lambda>p. ?R (?cur' ! p)) rest)"
    proof (rule Cons.IH)
      show "distinct rest" by (rule p(3))
      show "\<forall>p\<in>set rest. p < length ?cur'" using Cons.prems(2) by simp
      show "\<forall>q\<in>set rest. (keyOf (?cur' ! q) target, a) \<in> set (entries (?cur' ! q))"
        using Cons.prems(3) same by simp
    qed
    have m1: "map (\<lambda>i. if i \<in> set rest \<and> ?R (?cur' ! i) then ?del (?cur' ! i) else ?cur' ! i)
                 [0..<length ?cur'] =
          map (\<lambda>i. if i \<in> set (p # rest) \<and> ?R (cur ! i) then ?del (cur ! i) else cur ! i)
            [0..<length cur]"
    proof (rule nth_equalityI)
      show "length (map (\<lambda>i. if i \<in> set rest \<and> ?R (?cur' ! i) then ?del (?cur' ! i)
                               else ?cur' ! i) [0..<length ?cur']) =
            length (map (\<lambda>i. if i \<in> set (p # rest) \<and> ?R (cur ! i) then ?del (cur ! i)
                               else cur ! i) [0..<length cur])"
        by simp
    next
      fix i assume "i < length (map (\<lambda>i. if i \<in> set rest \<and> ?R (?cur' ! i) then ?del (?cur' ! i)
                               else ?cur' ! i) [0..<length ?cur'])"
      then have i: "i < length cur" by simp
      show "map (\<lambda>i. if i \<in> set rest \<and> ?R (?cur' ! i) then ?del (?cur' ! i) else ?cur' ! i)
                 [0..<length ?cur'] ! i =
            map (\<lambda>i. if i \<in> set (p # rest) \<and> ?R (cur ! i) then ?del (cur ! i) else cur ! i)
                 [0..<length cur] ! i"
      proof (cases "i = p")
        case True
        then show ?thesis using i p(2) \<open>?R (cur ! p)\<close> by simp
      next
        case False
        then have "cur[p := y] ! i = cur ! i" for y by simp
        then show ?thesis using i False by auto
      qed
    qed
    have m2: "map (\<lambda>p. ?R (?cur' ! p)) rest = map (\<lambda>p. ?R (cur ! p)) rest"
      using same by (intro map_cong) simp_all
    show ?thesis
      using True del ih unfolding m1 m2
      by (cases "keyUsesNonInlinedMemory (cur ! p)") simp_all
  qed
qed

lemma addToIndexesToUpdate_ok:
  assumes "distinct ps" "\<forall>p \<in> set ps. p < length cur"
    and "\<forall>p \<in> set ps. Q p \<longrightarrow> isUniqueIndex (cur ! p) \<longrightarrow> uniqueMatchingTuple (cur ! p) t = None"
  shows "addToIndexesToUpdate cur ps (map Q ps) t a =
     (True,
      map (\<lambda>i. if i \<in> set ps \<and> Q i
               then (cur ! i)\<lparr>entries := entries (cur ! i) @ [(keyOf (cur ! i) t, a)]\<rparr>
               else cur ! i) [0..<length cur])"
  using assms
proof (induction ps arbitrary: cur)
  case Nil
  show ?case by (simp add: map_nth)
next
  case (Cons p rest)
  let ?add = "\<lambda>ix. ix\<lparr>entries := entries ix @ [(keyOf ix t, a)]\<rparr>"
  have p: "p < length cur" "p \<notin> set rest" "distinct rest"
    using Cons.prems by simp_all
  show ?case
  proof (cases "Q p")
    case False
    have ih: "addToIndexesToUpdate cur rest (map Q rest) t a =
        (True, map (\<lambda>i. if i \<in> set rest \<and> Q i then ?add (cur ! i) else cur ! i) [0..<length cur])"
      using Cons.prems by (intro Cons.IH) simp_all
    have "map (\<lambda>i. if i \<in> set rest \<and> Q i then ?add (cur ! i) else cur ! i) [0..<length cur] =
          map (\<lambda>i. if i \<in> set (p # rest) \<and> Q i then ?add (cur ! i) else cur ! i) [0..<length cur]"
      using False by (intro map_cong) auto
    then show ?thesis using False ih by simp
  next
    case True
    let ?cur' = "cur[p := ?add (cur ! p)]"
    have add: "addEntry (cur ! p) t a = Inr (?add (cur ! p))"
      using Cons.prems(3) True by (simp add: addEntry_Inr)
    have same: "?cur' ! q = cur ! q" if "q \<in> set rest" for q
    proof -
      have "p \<noteq> q" using that p(2) by blast
      then show ?thesis by simp
    qed
    have ih: "addToIndexesToUpdate ?cur' rest (map Q rest) t a =
        (True, map (\<lambda>i. if i \<in> set rest \<and> Q i then ?add (?cur' ! i) else ?cur' ! i)
                 [0..<length ?cur'])"
    proof (rule Cons.IH)
      show "distinct rest" by (rule p(3))
      show "\<forall>p\<in>set rest. p < length ?cur'" using Cons.prems(2) by simp
      show "\<forall>q\<in>set rest. Q q \<longrightarrow> isUniqueIndex (?cur' ! q) \<longrightarrow>
              uniqueMatchingTuple (?cur' ! q) t = None"
        using Cons.prems(3) same by simp
    qed
    have m1: "map (\<lambda>i. if i \<in> set rest \<and> Q i then ?add (?cur' ! i) else ?cur' ! i)
                 [0..<length ?cur'] =
          map (\<lambda>i. if i \<in> set (p # rest) \<and> Q i then ?add (cur ! i) else cur ! i)
            [0..<length cur]"
    proof (rule nth_equalityI)
      show "length (map (\<lambda>i. if i \<in> set rest \<and> Q i then ?add (?cur' ! i) else ?cur' ! i)
                 [0..<length ?cur']) =
            length (map (\<lambda>i. if i \<in> set (p # rest) \<and> Q i then ?add (cur ! i) else cur ! i)
                 [0..<length cur])"
        by simp
    next
      fix i assume "i < length (map (\<lambda>i. if i \<in> set rest \<and> Q i then ?add (?cur' ! i)
                               else ?cur' ! i) [0..<length ?cur'])"
      then have i: "i < length cur" by simp
      show "map (\<lambda>i. if i \<in> set rest \<and> Q i then ?add (?cur' ! i) else ?cur' ! i)
                 [0..<length ?cur'] ! i =
            map (\<lambda>i. if i \<in> set (p # rest) \<and> Q i then ?add (cur ! i) else cur ! i)
                 [0..<length cur] ! i"
      proof (cases "i = p")
        case True
        then show ?thesis using i p(2) \<open>Q p\<close> by simp
      next
        case False
        then have "cur[p := y] ! i = cur ! i" for y by simp
        then show ?thesis using i False by auto
      qed
    qed
    show ?thesis
      using True add ih unfolding m1 by simp
  qed
qed

lemma remove1_key_gone:
  assumes "distinct (map fst es)" "(k, a) \<in> set es"
  shows "k \<notin> fst ` set (remove1 (k, a) es)"
  using assms
proof (induction es)
  case Nil
  then show ?case by simp
next
  case (Cons e es)
  show ?case
  proof (cases "e = (k, a)")
    case True
    have "k \<notin> fst ` set es" using Cons.prems(1) True by simp
    then show ?thesis using True by simp
  next
    case False
    then have "(k, a) \<in> set es" using Cons.prems(2) by simp
    moreover have "distinct (map fst es)" using Cons.prems(1) by simp
    ultimately have "k \<notin> fst ` set (remove1 (k, a) es)" by (rule Cons.IH [rotated])
    moreover have "fst e \<noteq> k"
    proof
      assume "fst e = k"
      moreover have "k \<in> fst ` set es"
        using \<open>(k, a) \<in> set es\<close> by (metis fst_conv image_eqI)
      ultimately show False using Cons.prems(1) by simp
    qed
    ultimately show ?thesis using False by auto
  qed
qed

lemma updateObjects_values: "map getValue (fst (updateObjects n target cs)) = map getValue cs"
  by (induction n target cs rule: updateObjects.induct) (auto split: prod.splits)

lemma copyForPersistentUpdate_values:
  assumes "copyForPersistentUpdate n target source = (stored, n')"
  shows "map getValue (columns stored) = map getValue (columns source)"
    and "hiddenColumns stored = hiddenColumns source"
    and "isActive stored = isActive source" "isPendingDelete stored = isPendingDelete source"
    and "isPendingDeleteOnUndoRelease stored = isPendingDeleteOnUndoRelease source"
  using assms updateObjects_values [of n "columns target" "columns source"]
  by (auto simp: copyForPersistentUpdate_def split: prod.splits)

section \<open>Theorems: how a delete ends\<close>

lemma deleteTuple_cases:
  assumes run: "deleteTuple codec E a True = (out, E')"
    and tc: "tableConsistent (table E)"
    and a: "a < length (m_data (table E))" "isVisible (m_data (table E) ! a)"
    and q: "currentUndoQuantum E = Some acts"
  shows "tableConsistent (table E') \<and> tableShape (table E') = tableShape (table E) \<and>
     ((out = TupleStreamException \<and> drEmits E \<and>
       (\<exists>s. drStream E = Some s \<and>
            drStream E' = Some (transactionBegun codec (currentUniqueId E) s)) \<and>
       m_indexes (table E') = m_indexes (table E) \<and>
       m_data (table E') = m_data (table E) \<and>
       currentUndoQuantum E' = currentUndoQuantum E) \<or>
      (out = Returned \<and>
       (\<exists>mark.
          currentUndoQuantum E' = Some (PersistentTableUndoDeleteAction a mark # acts) \<and>
          recorded codec E (recordOf E (DeleteTuple a)) mark (drStream E') \<and>
          add_mset (tupleImage (m_data (table E) ! a)) (visibleTuples (table E')) =
            visibleTuples (table E) \<and>
          pinnedTuples (table E') =
            (pinnedTuples (table E))(a \<mapsto> tupleImage (m_data (table E) ! a)))))"
proof -
  let ?d = "m_data (table E)"
  have flags: "isActive (?d ! a)" "\<not> isPendingDelete (?d ! a)"
      "\<not> isPendingDeleteOnUndoRelease (?d ! a)"
    using a(2) by (simp_all add: isVisible_def)
  obtain o1 mark E1 where
    app: "drAppend codec E True DR_RECORD_DELETE [?d ! a] = (o1, mark, E1)"
    by (metis prod_cases3)
  obtain cache str where
    E1: "E1 = E\<lparr>table := (table E)\<lparr>m_drIndexCache := cache\<rparr>, drStream := str\<rparr>"
    using drAppend_engine [OF app] by blast
  have rec: "(o1 = Returned \<and> recorded codec E (DR_RECORD_DELETE, [?d ! a]) mark (drStream E1)) \<or>
         (o1 = TupleStreamException \<and> drEmits E \<and>
          (\<exists>s. drStream E = Some s \<and>
               drStream E1 = Some (transactionBegun codec (currentUniqueId E) s)))"
    by (rule drAppend_recorded [OF app]) simp_all
  show ?thesis
  proof (cases "o1 = Returned")
    case False
    then have res: "out = o1" "E' = E1"
      using run flags(1) app by (simp_all add: deleteTuple_def)
    show ?thesis
      using rec False tc by (simp add: res E1)
  next
    case True
    let ?del = "\<lambda>ix. ix\<lparr>entries := remove1 (keyOf ix (?d ! a), a) (entries ix)\<rparr>"
    let ?tp = "(?d ! a)\<lparr>isPendingDelete := False, isPendingDeleteOnUndoRelease := True\<rparr>"
    have "\<forall>ix \<in> set (m_indexes (table E)). (keyOf ix (?d ! a), a) \<in> set (entries ix)"
      using indexConsistent_entry [OF tableConsistent_index(1) [OF tc] a] by blast
    from deleteFromAllIndexes_ok [OF this]
    have del: "deleteFromAllIndexes (m_indexes (table E1)) (m_data (table E1) ! a) a =
               (True, map ?del (m_indexes (table E)))"
      by (simp add: E1)
    define T' where "T' = (table E)\<lparr>m_data := ?d[a := ?tp],
                             m_indexes := map ?del (m_indexes (table E))\<rparr>"
    have nv: "\<not> isVisible ?tp" by (simp add: isVisible_def)
    note rem = table_remove_visible [OF tc a nv T'_def]
    have big: "deleteTuple codec E a True =
        (Returned,
         E\<lparr>table := T'\<lparr>m_drIndexCache := cache,
                        m_tuplesPinnedByUndo := m_tuplesPinnedByUndo (table E) + 1,
                        m_invisibleTuplesPendingDeleteCount :=
                          m_invisibleTuplesPendingDeleteCount (table E) + 1\<rparr>,
            drStream := str,
            currentUndoQuantum := Some (PersistentTableUndoDeleteAction a mark # acts)\<rparr>)"
      unfolding deleteTuple_def
      using flags app True del a(1) q
      by (simp add: Let_def E1 setSlot_def registerUndoAction_def T'_def)
    then have out: "out = Returned"
      and tab: "table E' = T'\<lparr>m_drIndexCache := cache,
                        m_tuplesPinnedByUndo := m_tuplesPinnedByUndo (table E) + 1,
                        m_invisibleTuplesPendingDeleteCount :=
                          m_invisibleTuplesPendingDeleteCount (table E) + 1\<rparr>"
      and str: "drStream E' = str"
      and qu: "currentUndoQuantum E' = Some (PersistentTableUndoDeleteAction a mark # acts)"
      using run by auto
    have im: "tupleImage ?tp = tupleImage (?d ! a)" by (simp add: tupleImage_def)
    have pin: "pinnedTuples T' = (pinnedTuples (table E))(a \<mapsto> tupleImage (?d ! a))"
      using rem(4) flags(1) by (simp add: im)
    have r: "recorded codec E (recordOf E (DeleteTuple a)) mark str"
      using rec True by (simp add: E1)
    have "currentUndoQuantum E' = Some (PersistentTableUndoDeleteAction a mark # acts) \<and>
          recorded codec E (recordOf E (DeleteTuple a)) mark (drStream E') \<and>
          add_mset (tupleImage (m_data (table E) ! a)) (visibleTuples (table E')) =
            visibleTuples (table E) \<and>
          pinnedTuples (table E') =
            (pinnedTuples (table E))(a \<mapsto> tupleImage (m_data (table E) ! a))"
      using qu r rem(2) pin by (simp add: tab str)
    moreover have "tableConsistent (table E') \<and> tableShape (table E') = tableShape (table E)"
      using rem(1,3) by (simp add: tab)
    ultimately show ?thesis using out by blast
  qed
qed

section \<open>Theorems: how an update ends\<close>

lemma keyOf_columns: "columns t = columns t' \<Longrightarrow> keyOf ix t = keyOf ix t'"
  by (simp add: keyOf_def getNValue_def)

lemma updateTuple_cases:
  assumes run: "updateTupleWithSpecificIndexes codec E a source ps True upd = (out, E')"
    and tc: "tableConsistent (table E)"
    and valid: "validOperation (table E) (UpdateTuple a source ps upd)"
    and q: "currentUndoQuantum E = Some acts"
  shows "tableConsistent (table E') \<and> tableShape (table E') = tableShape (table E) \<and>
     pinnedTuples (table E') = pinnedTuples (table E) \<and>
     (((\<exists>c x. out = ConstraintFailureException c x) \<and> E' = E) \<or>
      (out = TupleStreamException \<and> drEmits E \<and>
       (\<exists>s. drStream E = Some s \<and>
            drStream E' = Some (transactionBegun codec (currentUniqueId E) s)) \<and>
       m_indexes (table E') = m_indexes (table E) \<and>
       m_data (table E') = m_data (table E) \<and>
       currentUndoQuantum E' = currentUndoQuantum E) \<or>
      (out = Returned \<and>
       (\<exists>stored mark.
          currentUndoQuantum E' =
            Some (PersistentTableUndoUpdateAction (m_data (table E) ! a) stored (ps \<noteq> []) mark
                  # acts) \<and>
          recorded codec E (recordOf E (UpdateTuple a source ps upd)) mark (drStream E') \<and>
          add_mset (tupleImage (m_data (table E) ! a)) (visibleTuples (table E')) =
            add_mset (tupleImage stored) (visibleTuples (table E)) \<and>
          map getValue (columns stored) = map getValue (columns source) \<and>
          (ps = [] \<longrightarrow>
             (\<forall>ix \<in> set (m_indexes (table E)).
                keyOf ix stored = keyOf ix (m_data (table E) ! a))))))"
proof -
  let ?d = "m_data (table E)"
  let ?ixs = "m_indexes (table E)"
  have a: "a < length ?d" "isVisible (?d ! a)"
    and src: "columnsAsCounted (m_schema (table E)) source"
      "\<not> isPendingDelete source" "\<not> isPendingDeleteOnUndoRelease source"
    and ps: "distinct ps" "\<forall>p \<in> set ps. p < length ?ixs"
    and named: "\<forall>i < length ?ixs. checkForIndexChange (?ixs ! i) (?d ! a) source \<longrightarrow> i \<in> set ps"
    using valid by (simp_all add: list_all_iff)
  have same: "E' = E \<Longrightarrow>
      tableConsistent (table E') \<and> tableShape (table E') = tableShape (table E) \<and>
      pinnedTuples (table E') = pinnedTuples (table E)"
    using tc by simp
  show ?thesis
  proof (cases "checkUpdateOnUniqueIndexes ?ixs (?d ! a) source ps")
    case False
    then have "out = ConstraintFailureException CONSTRAINT_TYPE_UNIQUE (Some a)" "E' = E"
      using run by (simp_all add: updateTupleWithSpecificIndexes_def Let_def)
    then show ?thesis using same by blast
  next
    case chk: True
    then have nochk: "\<not> (True \<and> \<not> checkUpdateOnUniqueIndexes ?ixs (?d ! a) source ps)"
      by simp
    show ?thesis
    proof (cases "checkNulls (table E) source")
      case False
      then have "out = ConstraintFailureException CONSTRAINT_TYPE_NOT_NULL (Some a)" "E' = E"
        using run chk by (simp_all add: updateTupleWithSpecificIndexes_def Let_def)
      then show ?thesis using same by blast
    next
      case nulls: True
      then have nonull: "\<not> (True \<and> \<not> checkNulls (table E) source)" by simp
      define src' where "src' = (if hasDRTimestampColumn (table E) \<and> upd
            then setDRTimestampForTuple (currentDRTimestamp E) source True else source)"
      obtain o1 mark E1 where
        app: "drAppend codec E True DR_RECORD_UPDATE [?d ! a, src'] = (o1, mark, E1)"
        by (metis prod_cases3)
      obtain cache str where
        E1: "E1 = E\<lparr>table := (table E)\<lparr>m_drIndexCache := cache\<rparr>, drStream := str\<rparr>"
        using drAppend_engine [OF app] by blast
      have rec: "(o1 = Returned \<and>
             recorded codec E (DR_RECORD_UPDATE, [?d ! a, src']) mark (drStream E1)) \<or>
         (o1 = TupleStreamException \<and> drEmits E \<and>
          (\<exists>s. drStream E = Some s \<and>
               drStream E1 = Some (transactionBegun codec (currentUniqueId E) s)))"
        by (rule drAppend_recorded [OF app]) simp_all
      have ro: "recordOf E (UpdateTuple a source ps upd) = (DR_RECORD_UPDATE, [?d ! a, src'])"
        by (simp add: src'_def)
      show ?thesis
      proof (cases "o1 = Returned")
        case False
        have "updateTupleWithSpecificIndexes codec E a source ps True upd = (o1, E1)"
          unfolding updateTupleWithSpecificIndexes_def Let_def if_not_P [OF nochk]
            if_not_P [OF nonull] app [unfolded src'_def] prod.case
          using False by simp
        then have res: "out = o1" "E' = E1" using run by simp_all
        show ?thesis
          using rec False tc by (simp add: res E1)
      next
        case o1: True
        define cur where "cur = (if streamerSays (table E1) notifyTupleUpdate a
                                 then (?d ! a)\<lparr>isDirty := True\<rparr> else ?d ! a)"
        define Q where "Q = (\<lambda>i. keyUsesNonInlinedMemory (?ixs ! i) \<or>
                                  checkForIndexChange (?ixs ! i) (?d ! a) source)"
        define del where
          "del = (\<lambda>ix. ix\<lparr>entries := remove1 (keyOf ix (?d ! a), a) (entries ix)\<rparr>)"
        define ixs1 where
          "ixs1 = map (\<lambda>i. if i \<in> set ps \<and> Q i then del (?ixs ! i) else ?ixs ! i)
                     [0..<length ?ixs]"
        have curc: "columns cur = columns (?d ! a)" "hiddenColumns cur = hiddenColumns (?d ! a)"
            "\<not> isPendingDelete cur"
          using a(2) by (simp_all add: cur_def isVisible_def)
        have kc: "keyOf ix cur = keyOf ix (?d ! a)" for ix
          using curc(1) by (rule keyOf_columns)
        have ks: "keyOf ix src' = keyOf ix source" for ix
          by (rule keyOf_columns) (simp add: src'_def)
        have chg: "checkForIndexChange ix cur src' = checkForIndexChange ix (?d ! a) source" for ix
          by (simp add: checkForIndexChange_def kc ks)
        have present: "(keyOf ix (?d ! a), a) \<in> set (entries ix)" if "ix \<in> set ?ixs" for ix
          using indexConsistent_entry [OF tableConsistent_index(1) [OF tc that] a] .
        have "removeFromIndexesToUpdate ?ixs ps cur src' a =
          (True,
           map (\<lambda>i. if i \<in> set ps \<and>
                  (keyUsesNonInlinedMemory (?ixs ! i) \<or> checkForIndexChange (?ixs ! i) cur src')
               then (?ixs ! i)\<lparr>entries := remove1 (keyOf (?ixs ! i) cur, a) (entries (?ixs ! i))\<rparr>
               else ?ixs ! i) [0..<length ?ixs],
           map (\<lambda>p. keyUsesNonInlinedMemory (?ixs ! p) \<or> checkForIndexChange (?ixs ! p) cur src')
             ps)"
        proof (rule removeFromIndexesToUpdate_ok [OF ps])
          show "\<forall>p\<in>set ps. (keyOf (?ixs ! p) cur, a) \<in> set (entries (?ixs ! p))"
            using ps(2) present by (simp add: kc)
        qed
        then have rem: "removeFromIndexesToUpdate ?ixs ps cur src' a = (True, ixs1, map Q ps)"
          unfolding chg kc ixs1_def Q_def del_def .
        obtain stored nxt where
          cp: "copyForPersistentUpdate (nextObject E) cur
                 (src'\<lparr>isActive := True, isDirty := isDirty cur\<rparr>) = (stored, nxt)"
          by (cases "copyForPersistentUpdate (nextObject E) cur
                 (src'\<lparr>isActive := True, isDirty := isDirty cur\<rparr>)")
        note cpv = copyForPersistentUpdate_values [OF cp]
        have src'flags: "\<not> isPendingDelete src'" "\<not> isPendingDeleteOnUndoRelease src'"
            "columns src' = columns source"
          using src by (simp_all add: src'_def setDRTimestampForTuple_def)
        have src'c: "columnsAsCounted (m_schema (table E)) src'"
          using src by (simp add: src'_def)
        have st: "isVisible stored" "map getValue (columns stored) = map getValue (columns source)"
          using cpv src'flags by (simp_all add: isVisible_def)
        have "length (map getValue (columns stored)) = length (map getValue (columns source))"
          using st(2) by simp
        then have stc: "columnsAsCounted (m_schema (table E)) stored"
          using src'c cpv(2) src'flags(3) by (simp add: columnsAsCounted_def)
        have kst: "keyOf ix stored = keyOf ix source" for ix
          using st(2) by (rule keyOf_cong)
        have len1: "length ixs1 = length ?ixs" by (simp add: ixs1_def)
        have nth1: "ixs1 ! i = (if i \<in> set ps \<and> Q i then del (?ixs ! i) else ?ixs ! i)"
          if "i < length ?ixs" for i
          using that by (simp add: ixs1_def)
        define ixs2 where
          "ixs2 = map (\<lambda>i. if i \<in> set ps \<and> Q i
               then (ixs1 ! i)\<lparr>entries := entries (ixs1 ! i) @ [(keyOf (ixs1 ! i) stored, a)]\<rparr>
               else ixs1 ! i) [0..<length ixs1]"
        have unchanged: "keyOf (?ixs ! i) source = keyOf (?ixs ! i) (?d ! a)"
          if "i < length ?ixs" "\<not> (i \<in> set ps \<and> Q i)" for i
        proof -
          have "\<not> checkForIndexChange (?ixs ! i) (?d ! a) source"
            using that named by (auto simp: Q_def)
          then show ?thesis by (simp add: checkForIndexChange_def)
        qed
        have nokey: "keyOf (?ixs ! i) source \<notin> fst ` set (entries (?ixs ! i))"
          if "i < length ?ixs" "isUniqueIndex (?ixs ! i)"
             "checkForIndexChange (?ixs ! i) (?d ! a) source" for i
        proof -
          have "i \<in> set ps" using that named by simp
          then have "\<not> existsKey (?ixs ! i) source"
            using chk that(2,3) by (simp add: checkUpdateOnUniqueIndexes_iff)
          then show ?thesis by (simp add: existsKey_def)
        qed
        have add: "addToIndexesToUpdate ixs1 ps (map Q ps) stored a = (True, ixs2)"
          unfolding ixs2_def
        proof (rule addToIndexesToUpdate_ok [OF ps(1)])
          show "\<forall>p\<in>set ps. p < length ixs1" using ps(2) len1 by simp
          show "\<forall>p\<in>set ps. Q p \<longrightarrow> isUniqueIndex (ixs1 ! p) \<longrightarrow>
                  uniqueMatchingTuple (ixs1 ! p) stored = None"
          proof (intro ballI impI)
            fix p assume p: "p \<in> set ps" "Q p" and u: "isUniqueIndex (ixs1 ! p)"
            have pl: "p < length ?ixs" using ps(2) p(1) by simp
            have e1: "ixs1 ! p = del (?ixs ! p)" using nth1 [OF pl] p by simp
            have uq: "isUniqueIndex (?ixs ! p)" using u by (simp add: e1 del_def)
            have mem: "?ixs ! p \<in> set ?ixs" using pl by simp
            have "keyOf (?ixs ! p) source \<notin>
                    fst ` set (remove1 (keyOf (?ixs ! p) (?d ! a), a) (entries (?ixs ! p)))"
            proof (cases "checkForIndexChange (?ixs ! p) (?d ! a) source")
              case True
              have "set (remove1 (keyOf (?ixs ! p) (?d ! a), a) (entries (?ixs ! p))) \<subseteq>
                    set (entries (?ixs ! p))"
                by (rule set_remove1_subset)
              then show ?thesis using nokey [OF pl uq True] by blast
            next
              case False
              then have same: "keyOf (?ixs ! p) source = keyOf (?ixs ! p) (?d ! a)"
                by (simp add: checkForIndexChange_def)
              have "distinct (map fst (entries (?ixs ! p)))"
                using tableConsistent_index [OF tc mem] uq
                by (intro indexConsistent_distinct_keys) simp_all
              from remove1_key_gone [OF this present [OF mem]]
              show ?thesis unfolding same .
            qed
            then show "uniqueMatchingTuple (ixs1 ! p) stored = None"
              by (simp add: uniqueMatchingTuple_None e1 del_def kst)
          qed
        qed
        have len2: "length ixs2 = length ?ixs" by (simp add: ixs2_def len1)
        have rel: "\<forall>i < length ?ixs.
          ixs2 ! i = (?ixs ! i)\<lparr>entries :=
                       remove1 (keyOf (?ixs ! i) (?d ! a), a)
                         (entries (?ixs ! i)) @ [(keyOf (?ixs ! i) stored, a)]\<rparr> \<or>
          (ixs2 ! i = ?ixs ! i \<and> keyOf (?ixs ! i) stored = keyOf (?ixs ! i) (?d ! a))"
        proof (intro allI impI)
          fix i assume i: "i < length ?ixs"
          show "ixs2 ! i = (?ixs ! i)\<lparr>entries :=
                       remove1 (keyOf (?ixs ! i) (?d ! a), a)
                         (entries (?ixs ! i)) @ [(keyOf (?ixs ! i) stored, a)]\<rparr> \<or>
             (ixs2 ! i = ?ixs ! i \<and> keyOf (?ixs ! i) stored = keyOf (?ixs ! i) (?d ! a))"
          proof (cases "i \<in> set ps \<and> Q i")
            case True
            then have "ixs2 ! i = (del (?ixs ! i))\<lparr>entries := entries (del (?ixs ! i)) @
                          [(keyOf (del (?ixs ! i)) stored, a)]\<rparr>"
              using i nth1 [OF i] by (simp add: ixs2_def len1)
            then show ?thesis by (simp add: del_def)
          next
            case False
            have "ixs2 ! i = (if i \<in> set ps \<and> Q i
               then (ixs1 ! i)\<lparr>entries := entries (ixs1 ! i) @ [(keyOf (ixs1 ! i) stored, a)]\<rparr>
               else ixs1 ! i)"
              using i by (simp add: ixs2_def len1)
            then have "ixs2 ! i = ?ixs ! i"
              unfolding nth1 [OF i] if_not_P [OF False] .
            then show ?thesis using unchanged [OF i False] by (simp add: kst)
          qed
        qed
        have free: "\<forall>ix \<in> set ?ixs. isUniqueIndex ix \<longrightarrow>
            keyOf ix stored = keyOf ix (?d ! a) \<or> keyOf ix stored \<notin> fst ` set (entries ix)"
        proof (intro ballI impI)
          fix ix assume "ix \<in> set ?ixs" and u: "isUniqueIndex ix"
          then obtain i where i: "i < length ?ixs" "ix = ?ixs ! i"
            by (auto simp: in_set_conv_nth)
          show "keyOf ix stored = keyOf ix (?d ! a) \<or> keyOf ix stored \<notin> fst ` set (entries ix)"
          proof (cases "checkForIndexChange ix (?d ! a) source")
            case True
            then show ?thesis using nokey [OF i(1)] u i(2) by (simp add: kst)
          next
            case False
            then show ?thesis by (simp add: checkForIndexChange_def kst)
          qed
        qed
        define T' where "T' = (table E)\<lparr>m_data := ?d[a := stored], m_indexes := ixs2\<rparr>"
        note rep = table_replace_visible [OF tc a st(1) stc len2 rel free T'_def]
        have big: "updateTupleWithSpecificIndexes codec E a source ps True upd =
          (Returned,
           E\<lparr>table := T'\<lparr>m_drIndexCache := cache\<rparr>, drStream := str, nextObject := nxt,
              currentUndoQuantum :=
                Some (PersistentTableUndoUpdateAction (?d ! a) stored (ps \<noteq> []) mark # acts)\<rparr>)"
        proof (cases "streamerSays (table E1) notifyTupleUpdate a")
          case True
          then have c: "cur = (?d ! a)\<lparr>isDirty := True\<rparr>" by (simp add: cur_def)
          show ?thesis
            unfolding updateTupleWithSpecificIndexes_def Let_def if_not_P [OF nochk]
              if_not_P [OF nonull] app [unfolded src'_def] prod.case
            using True o1 rem cp add a(1) q curc(3)
            by (simp add: c E1 src'_def setSlot_def registerUndoAction_def T'_def)
        next
          case False
          then have c: "cur = ?d ! a" by (simp add: cur_def)
          show ?thesis
            unfolding updateTupleWithSpecificIndexes_def Let_def if_not_P [OF nochk]
              if_not_P [OF nonull] app [unfolded src'_def] prod.case
            using False o1 rem cp add a(1) q curc(3)
            by (simp add: c E1 src'_def setSlot_def registerUndoAction_def T'_def)
        qed
        then have out: "out = Returned"
          and tab: "table E' = T'\<lparr>m_drIndexCache := cache\<rparr>"
          and str: "drStream E' = str"
          and qu: "currentUndoQuantum E' =
                Some (PersistentTableUndoUpdateAction (?d ! a) stored (ps \<noteq> []) mark # acts)"
          using run by auto
        have r: "recorded codec E (recordOf E (UpdateTuple a source ps upd)) mark str"
          using rec o1 unfolding ro by (simp add: E1)
        have keys: "ps = [] \<longrightarrow> (\<forall>ix \<in> set ?ixs. keyOf ix stored = keyOf ix (?d ! a))"
        proof (intro impI ballI)
          fix ix assume e: "ps = []" and "ix \<in> set ?ixs"
          then obtain i where i: "i < length ?ixs" "ix = ?ixs ! i"
            by (auto simp: in_set_conv_nth)
          show "keyOf ix stored = keyOf ix (?d ! a)"
            using unchanged [OF i(1)] e i(2) by (simp add: kst)
        qed
        have "currentUndoQuantum E' =
            Some (PersistentTableUndoUpdateAction (?d ! a) stored (ps \<noteq> []) mark # acts) \<and>
          recorded codec E (recordOf E (UpdateTuple a source ps upd)) mark (drStream E') \<and>
          add_mset (tupleImage (?d ! a)) (visibleTuples (table E')) =
            add_mset (tupleImage stored) (visibleTuples (table E)) \<and>
          map getValue (columns stored) = map getValue (columns source) \<and>
          (ps = [] \<longrightarrow> (\<forall>ix \<in> set ?ixs. keyOf ix stored = keyOf ix (?d ! a)))"
          using qu r rep(2) st(2) keys by (simp add: tab str)
        moreover have "tableConsistent (table E') \<and> tableShape (table E') = tableShape (table E) \<and>
            pinnedTuples (table E') = pinnedTuples (table E)"
          using rep(1,3,4) by (simp add: tab)
        ultimately show ?thesis using out by blast
      qed
    qed
  qed
qed

section \<open>Theorems: the record of an operation and its storage\<close>

lemma engineConsistent_parts:
  assumes "engineConsistent E"
  shows "tableConsistent (table E)" "\<forall>s. drStream E = Some s \<longrightarrow> streamWellFormed s"
  using assms by (auto simp: engineConsistent_def split: option.splits)

lemma recorded_emits:
  assumes "drEmits E" "drStream E = Some s"
  shows "recorded codec E r mark str \<longleftrightarrow>
         mark = length (m_buffer s) \<and> str = Some (recordAppended codec E (fst r) (snd r) s)"
  using assms by (simp add: recorded_def)

text \<open>
  Claim C2. An insert, an update or a delete, asked for by a statement of a transaction on a
  consistent table whose records the DR stream takes, never ends with a fatal exception or a
  failed assertion, and:
  \<^item> when it returns, the stream is the stream it found with the record of the operation
    appended (the transaction begun first if none was open); the record is made of the
    tuples as they were before the indexes and the tuple of the table were changed (for a
    delete the tuple to delete, for an update the tuple before the update and the new
    values, for an insert the copy of the source put in a free slot); and the undo action
    registered for the operation carries the mark taken before the append, the offset of
    the end of the buffer that the operation found;
  \<^item> when the append fails with a buffer overflow, nothing was changed yet: indexes, visible
    tuples and undo quantum are as before, and for an update or a delete every slot of the
    storage is; the stream holds what the failed append left, the transaction begun;
  \<^item> when the operation fails with a constraint failure, among them the unique conflict
    that an insert meets in the indexes after its append, the stream shows what it showed
    before the operation (rolled back to the mark), and indexes, visible tuples and undo
    quantum are as before.
\<close>

theorem runOperation_records:
  assumes run: "runOperation codec E operation = (out, E')"
    and consistent: "engineConsistent E"
    and valid: "validOperation (table E) operation"
    and quantum: "currentUndoQuantum E = Some actions"
    and emits: "drEmits E"
    and stream: "drStream E = Some stream"
  shows "out \<noteq> FatalException \<and> out \<noteq> AssertionFailed \<and>
     (out = Returned \<longrightarrow>
        (\<exists>action. currentUndoQuantum E' = Some (action # actions) \<and>
           drMarkOf action = length (m_buffer stream) \<and>
           drStream E' =
             Some (recordAppended codec E (fst (recordOf E operation))
                     (snd (recordOf E operation)) stream))) \<and>
     (out = TupleStreamException \<longrightarrow>
        drStream E' = Some (transactionBegun codec (currentUniqueId E) stream) \<and>
        m_indexes (table E') = m_indexes (table E) \<and>
        visibleTuples (table E') = visibleTuples (table E) \<and>
        currentUndoQuantum E' = Some actions \<and>
        (case operation of
           InsertTuple source \<Rightarrow> True
         | DeleteTuple target \<Rightarrow> m_data (table E') = m_data (table E)
         | UpdateTuple target source indexesToUpdate updateDRTimestamp \<Rightarrow>
             m_data (table E') = m_data (table E))) \<and>
     ((\<exists>c conflict. out = ConstraintFailureException c conflict) \<longrightarrow>
        map_option streamView (drStream E') = Some (streamView stream) \<and>
        m_indexes (table E') = m_indexes (table E) \<and>
        visibleTuples (table E') = visibleTuples (table E) \<and>
        currentUndoQuantum E' = Some actions)"
proof -
  note tc = engineConsistent_parts(1) [OF consistent]
  note wf = engineConsistent_parts(2) [OF consistent]
  note rec = recorded_emits [OF emits stream]
  show ?thesis
  proof (cases operation)
    case (InsertTuple source)
    have run': "insertPersistentTuple codec E source True = (out, E')"
      using run InsertTuple by simp
    have counted: "columnsAsCounted (m_schema (table E)) source"
      using valid InsertTuple by simp
    from insertPersistentTuple_cases [OF run' tc wf counted]
    have "((\<exists>c x. out = ConstraintFailureException c x) \<and>
       map_option streamView (drStream E') = map_option streamView (drStream E) \<and>
       m_indexes (table E') = m_indexes (table E) \<and>
       visibleTuples (table E') = visibleTuples (table E) \<and>
       currentUndoQuantum E' = currentUndoQuantum E) \<or>
      (out = TupleStreamException \<and> drEmits E \<and>
       (\<exists>s. drStream E = Some s \<and>
            drStream E' = Some (transactionBegun codec (currentUniqueId E) s)) \<and>
       m_indexes (table E') = m_indexes (table E) \<and>
       visibleTuples (table E') = visibleTuples (table E) \<and>
       currentUndoQuantum E' = currentUndoQuantum E) \<or>
      (out = Returned \<and>
       (\<exists>t mark.
          currentUndoQuantum E' =
            map_option ((#) (PersistentTableUndoInsertAction t mark)) (currentUndoQuantum E) \<and>
          tupleImage t = tupleImage (hd (snd (recordOf E (InsertTuple source)))) \<and>
          recorded codec E (recordOf E (InsertTuple source)) mark (drStream E') \<and>
          visibleTuples (table E') = add_mset (tupleImage t) (visibleTuples (table E))))"
      by blast
    then show ?thesis
    proof (elim disjE conjE exE)
      fix c x
      assume "out = ConstraintFailureException c x"
        "map_option streamView (drStream E') = map_option streamView (drStream E)"
        "m_indexes (table E') = m_indexes (table E)"
        "visibleTuples (table E') = visibleTuples (table E)"
        "currentUndoQuantum E' = currentUndoQuantum E"
      then show ?thesis using quantum stream by simp
    next
      fix s
      assume "out = TupleStreamException" "drStream E = Some s"
        "drStream E' = Some (transactionBegun codec (currentUniqueId E) s)"
        "m_indexes (table E') = m_indexes (table E)"
        "visibleTuples (table E') = visibleTuples (table E)"
        "currentUndoQuantum E' = currentUndoQuantum E"
      then show ?thesis using quantum stream InsertTuple by simp
    next
      fix t mark
      assume o: "out = Returned"
        and q: "currentUndoQuantum E' =
            map_option ((#) (PersistentTableUndoInsertAction t mark)) (currentUndoQuantum E)"
        and r: "recorded codec E (recordOf E (InsertTuple source)) mark (drStream E')"
      have "currentUndoQuantum E' = Some (PersistentTableUndoInsertAction t mark # actions) \<and>
           drMarkOf (PersistentTableUndoInsertAction t mark) = length (m_buffer stream) \<and>
           drStream E' =
             Some (recordAppended codec E (fst (recordOf E operation))
                     (snd (recordOf E operation)) stream)"
        using q r quantum unfolding rec InsertTuple by simp
      then have "\<exists>action. currentUndoQuantum E' = Some (action # actions) \<and>
           drMarkOf action = length (m_buffer stream) \<and>
           drStream E' =
             Some (recordAppended codec E (fst (recordOf E operation))
                     (snd (recordOf E operation)) stream)"
        by blast
      then show ?thesis using o by simp
    qed
  next
    case (DeleteTuple target)
    have run': "deleteTuple codec E target True = (out, E')"
      using run DeleteTuple by simp
    have a: "target < length (m_data (table E))" "isVisible (m_data (table E) ! target)"
      using valid DeleteTuple by simp_all
    from deleteTuple_cases [OF run' tc a quantum]
    have "(out = TupleStreamException \<and> drEmits E \<and>
       (\<exists>s. drStream E = Some s \<and>
            drStream E' = Some (transactionBegun codec (currentUniqueId E) s)) \<and>
       m_indexes (table E') = m_indexes (table E) \<and>
       m_data (table E') = m_data (table E) \<and>
       currentUndoQuantum E' = currentUndoQuantum E) \<or>
      (out = Returned \<and>
       (\<exists>mark.
          currentUndoQuantum E' = Some (PersistentTableUndoDeleteAction target mark # actions) \<and>
          recorded codec E (recordOf E (DeleteTuple target)) mark (drStream E') \<and>
          add_mset (tupleImage (m_data (table E) ! target)) (visibleTuples (table E')) =
            visibleTuples (table E) \<and>
          pinnedTuples (table E') =
            (pinnedTuples (table E))(target \<mapsto> tupleImage (m_data (table E) ! target))))"
      by blast
    then show ?thesis
    proof (elim disjE conjE exE)
      fix s
      assume "out = TupleStreamException" "drStream E = Some s"
        "drStream E' = Some (transactionBegun codec (currentUniqueId E) s)"
        "m_indexes (table E') = m_indexes (table E)"
        "m_data (table E') = m_data (table E)"
        "currentUndoQuantum E' = currentUndoQuantum E"
      then show ?thesis using quantum stream DeleteTuple by (simp add: visibleTuples_def)
    next
      fix mark
      assume o: "out = Returned"
        and q: "currentUndoQuantum E' =
                  Some (PersistentTableUndoDeleteAction target mark # actions)"
        and r: "recorded codec E (recordOf E (DeleteTuple target)) mark (drStream E')"
      have "currentUndoQuantum E' = Some (PersistentTableUndoDeleteAction target mark # actions) \<and>
           drMarkOf (PersistentTableUndoDeleteAction target mark) = length (m_buffer stream) \<and>
           drStream E' =
             Some (recordAppended codec E (fst (recordOf E operation))
                     (snd (recordOf E operation)) stream)"
        using q r unfolding rec DeleteTuple by simp
      then have "\<exists>action. currentUndoQuantum E' = Some (action # actions) \<and>
           drMarkOf action = length (m_buffer stream) \<and>
           drStream E' =
             Some (recordAppended codec E (fst (recordOf E operation))
                     (snd (recordOf E operation)) stream)"
        by blast
      then show ?thesis using o by simp
    qed
  next
    case (UpdateTuple target source ps upd)
    have run': "updateTupleWithSpecificIndexes codec E target source ps True upd = (out, E')"
      using run UpdateTuple by simp
    have valid': "validOperation (table E) (UpdateTuple target source ps upd)"
      using valid UpdateTuple by simp
    from updateTuple_cases [OF run' tc valid' quantum]
    have "((\<exists>c x. out = ConstraintFailureException c x) \<and> E' = E) \<or>
      (out = TupleStreamException \<and> drEmits E \<and>
       (\<exists>s. drStream E = Some s \<and>
            drStream E' = Some (transactionBegun codec (currentUniqueId E) s)) \<and>
       m_indexes (table E') = m_indexes (table E) \<and>
       m_data (table E') = m_data (table E) \<and>
       currentUndoQuantum E' = currentUndoQuantum E) \<or>
      (out = Returned \<and>
       (\<exists>stored mark.
          currentUndoQuantum E' =
            Some (PersistentTableUndoUpdateAction (m_data (table E) ! target) stored (ps \<noteq> []) mark
                  # actions) \<and>
          recorded codec E (recordOf E (UpdateTuple target source ps upd)) mark (drStream E') \<and>
          add_mset (tupleImage (m_data (table E) ! target)) (visibleTuples (table E')) =
            add_mset (tupleImage stored) (visibleTuples (table E)) \<and>
          map getValue (columns stored) = map getValue (columns source) \<and>
          (ps = [] \<longrightarrow>
             (\<forall>ix \<in> set (m_indexes (table E)).
                keyOf ix stored = keyOf ix (m_data (table E) ! target)))))"
      by blast
    then show ?thesis
    proof (elim disjE conjE exE)
      fix c x
      assume "out = ConstraintFailureException c x" "E' = E"
      then show ?thesis using quantum stream by simp
    next
      fix s
      assume "out = TupleStreamException" "drStream E = Some s"
        "drStream E' = Some (transactionBegun codec (currentUniqueId E) s)"
        "m_indexes (table E') = m_indexes (table E)"
        "m_data (table E') = m_data (table E)"
        "currentUndoQuantum E' = currentUndoQuantum E"
      then show ?thesis using quantum stream UpdateTuple by (simp add: visibleTuples_def)
    next
      fix stored mark
      assume o: "out = Returned"
        and q: "currentUndoQuantum E' =
            Some (PersistentTableUndoUpdateAction (m_data (table E) ! target) stored (ps \<noteq> []) mark
                  # actions)"
        and r: "recorded codec E (recordOf E (UpdateTuple target source ps upd)) mark
                  (drStream E')"
      have "currentUndoQuantum E' =
              Some (PersistentTableUndoUpdateAction (m_data (table E) ! target) stored
                      (ps \<noteq> []) mark # actions) \<and>
           drMarkOf (PersistentTableUndoUpdateAction (m_data (table E) ! target) stored
                      (ps \<noteq> []) mark) = length (m_buffer stream) \<and>
           drStream E' =
             Some (recordAppended codec E (fst (recordOf E operation))
                     (snd (recordOf E operation)) stream)"
        using q r unfolding rec UpdateTuple by simp
      then have "\<exists>action. currentUndoQuantum E' = Some (action # actions) \<and>
           drMarkOf action = length (m_buffer stream) \<and>
           drStream E' =
             Some (recordAppended codec E (fst (recordOf E operation))
                     (snd (recordOf E operation)) stream)"
        by blast
      then show ?thesis using o by simp
    qed
  qed
qed
lemmas update_defs =
  updateTupleWithSpecificIndexes_def checkForIndexChange_def existsKey_def keyOf_def
  getNValue_def checkNulls_def columnCount_def hasDRTimestampColumn_def drAppend_def
  appendRecord_def beginTransaction_def split_beta Let_def setSlot_def streamerSays_def
  copyForPersistentUpdate_def deleteEntry_def addEntry_def uniqueMatchingTuple_def
  registerUndoAction_def MAGIC_DR_TRANSACTION_PADDING_def INVALID_DR_MARK_def

lemmas consistent_defs =
  engineConsistent_def tableConsistent_def indexConsistent_def columnsAsCounted_def
  isVisible_def primaryKeyIndex_def streamWellFormed_def keyOf_def getNValue_def
  columnCount_def INVALID_DR_MARK_def drEmits_def

theorem runOperation_records_witness:
  "engineConsistent
     (exampleEngine
        (exampleTable [exampleRow 1 10 70]
           [exampleIndex ''v'' False [1] [([IntValue 10], 0)],
            exampleIndex ''pk'' True [0] [([IntValue 1], 0)]] (Some 1))
        (Some (exampleStream 10))) \<and>
   fst (runOperation exampleCodec
     (exampleEngine
        (exampleTable [exampleRow 1 10 70]
           [exampleIndex ''v'' False [1] [([IntValue 10], 0)],
            exampleIndex ''pk'' True [0] [([IntValue 1], 0)]] (Some 1))
        (Some (exampleStream 10)))
     (UpdateTuple 0 (exampleRow 1 20 0) [0] False)) = Returned \<and>
   map_option m_buffer (drStream (snd (runOperation exampleCodec
     (exampleEngine
        (exampleTable [exampleRow 1 10 70]
           [exampleIndex ''v'' False [1] [([IntValue 10], 0)],
            exampleIndex ''pk'' True [0] [([IntValue 1], 0)]] (Some 1))
        (Some (exampleStream 10)))
     (UpdateTuple 0 (exampleRow 1 20 0) [0] False)))) = Some [PROTOCOL_VERSION, 0, 2] \<and>
   (\<exists>action. currentUndoQuantum (snd (runOperation exampleCodec
     (exampleEngine
        (exampleTable [exampleRow 1 10 70]
           [exampleIndex ''v'' False [1] [([IntValue 10], 0)],
            exampleIndex ''pk'' True [0] [([IntValue 1], 0)]] (Some 1))
        (Some (exampleStream 10)))
     (UpdateTuple 0 (exampleRow 1 20 0) [0] False))) = Some [action] \<and>
     drMarkOf action = 0)"
proof -
  let ?E = "exampleEngine
        (exampleTable [exampleRow 1 10 70]
           [exampleIndex ''v'' False [1] [([IntValue 10], 0)],
            exampleIndex ''pk'' True [0] [([IntValue 1], 0)]] (Some 1))
        (Some (exampleStream 10))"
  let ?op = "UpdateTuple 0 (exampleRow 1 20 0) [0] False"
  let ?r = "runOperation exampleCodec ?E ?op"
  have run: "?r = (fst ?r, snd ?r)" by simp
  have consistent: "engineConsistent ?E"
    by (simp add: consistent_defs example_defs engine_defs)
  have valid: "validOperation (table ?E) ?op"
    by (simp add: consistent_defs checkForIndexChange_def example_defs engine_defs)
  have quantum: "currentUndoQuantum ?E = Some []"
    by (simp add: engine_defs)
  have emits: "drEmits ?E"
    by (simp add: consistent_defs example_defs engine_defs)
  have stream: "drStream ?E = Some (exampleStream 10)"
    by (simp add: engine_defs)
  have out: "fst ?r = Returned"
    by (simp add: update_defs example_defs engine_defs)
  have buf: "m_buffer (recordAppended exampleCodec ?E (fst (recordOf ?E ?op))
               (snd (recordOf ?E ?op)) (exampleStream 10)) = [PROTOCOL_VERSION, 0, 2]"
    by (simp add: recordAppended_def transactionBegun_def beginTransaction_def engine_defs)
  have len: "length (m_buffer (exampleStream 10)) = 0"
    by (simp add: engine_defs)
  note records = runOperation_records [OF run consistent valid quantum emits stream]
  from records [THEN conjunct2, THEN conjunct2, THEN conjunct1, THEN mp, OF out]
  obtain action where action: "currentUndoQuantum (snd ?r) = Some [action]"
      "drMarkOf action = length (m_buffer (exampleStream 10))"
      "drStream (snd ?r) =
         Some (recordAppended exampleCodec ?E (fst (recordOf ?E ?op))
                 (snd (recordOf ?E ?op)) (exampleStream 10))"
    by blast
  have "map_option m_buffer (drStream (snd ?r)) = Some [PROTOCOL_VERSION, 0, 2]"
    unfolding action(3) using buf by simp
  moreover have "\<exists>action. currentUndoQuantum (snd ?r) = Some [action] \<and> drMarkOf action = 0"
    using action(1,2) len by auto
  ultimately show ?thesis
    using consistent out by blast
qed

end
